theory Spec2Isabelle
  imports Main
begin

section \<open>C strings and destination buffers\<close>

text \<open>
  The functions of \<^verbatim>\<open>source/blender/blenlib/intern/string.c\<close> work on \<^verbatim>\<open>char *\<close>.
  A source pointer is modelled by the bytes that can be read from it: the list holds the
  bytes in front of the final terminating zero byte of the storage, so reading at the end
  of the list reads that zero byte. A zero byte inside the list terminates the C string
  earlier, exactly as it does for the C code, which only ever tests \<^verbatim>\<open>*s == 0\<close>.
  A destination is a buffer of a fixed number of bytes; a write outside of it is a fault.
\<close>

type_synonym buffer = "char list"

datatype fault = OutOfBounds

text \<open>\<^verbatim>\<open>*s\<close>\<close>

definition peek :: "string \<Rightarrow> char" where
  "peek s = (case s of [] \<Rightarrow> CHR 0x00 | c # _ \<Rightarrow> c)"

text \<open>\<^verbatim>\<open>dst[i] = c\<close>\<close>

definition poke :: "buffer \<Rightarrow> nat \<Rightarrow> char \<Rightarrow> fault + buffer" where
  "poke dst i c = (if i < length dst then Inr (dst[i := c]) else Inl OutOfBounds)"

fun strlen :: "string \<Rightarrow> nat" where
  "strlen [] = 0"
| "strlen (c # cs) = (if c = CHR 0x00 then 0 else Suc (strlen cs))"

text \<open>The C string a pointer denotes: the bytes in front of the first zero byte.\<close>

definition cstr :: "string \<Rightarrow> string" where
  "cstr s = take (strlen s) s"

section \<open>Suffix test\<close>

text \<open>
  The loop of \<^verbatim>\<open>BLI_strn_endswith\<close>:
  \<^verbatim>\<open>while (*iter) { if (*iter++ != *end++) { return false; } } return true;\<close>
\<close>

fun endswith_loop :: "string \<Rightarrow> string \<Rightarrow> bool" where
  "endswith_loop [] e = True"
| "endswith_loop (c # iter) e =
     (if c = CHR 0x00 then True
      else if c \<noteq> peek e then False
      else endswith_loop iter (tl e))"

text \<open>
  \<^verbatim>\<open>&str[slength - elength]\<close> is only computed when \<^verbatim>\<open>elength < slength\<close>; it points
  outside of the storage of \<^verbatim>\<open>str\<close> when the caller's \<^verbatim>\<open>slength\<close> is too large.
\<close>

definition BLI_strn_endswith :: "string \<Rightarrow> string \<Rightarrow> nat \<Rightarrow> fault + bool" where
  "BLI_strn_endswith str e slength =
     (let elength = strlen e in
      if elength < slength then
        (if slength - elength \<le> length str
         then Inr (endswith_loop (drop (slength - elength) str) e)
         else Inl OutOfBounds)
      else Inr False)"

definition BLI_str_endswith :: "string \<Rightarrow> string \<Rightarrow> fault + bool" where
  "BLI_str_endswith str e = (let slength = strlen str in BLI_strn_endswith str e slength)"

section \<open>Truncating copy\<close>

text \<open>
  \<^verbatim>\<open>for (len = 0; len < maxlen; len++, s++) { if (!*s) break; } return len;\<close>
\<close>

fun BLI_strnlen :: "string \<Rightarrow> nat \<Rightarrow> nat" where
  "BLI_strnlen s 0 = 0"
| "BLI_strnlen [] (Suc maxlen) = 0"
| "BLI_strnlen (c # s) (Suc maxlen) = (if c = CHR 0x00 then 0 else Suc (BLI_strnlen s maxlen))"

text \<open>
  \<^verbatim>\<open>memcpy(dst, src, n)\<close> of the C library: it reads \<open>n\<close> bytes of the source (whose
  storage is the list and its final zero byte) and overwrites the first \<open>n\<close> bytes of the
  destination.
\<close>

definition memcpy :: "buffer \<Rightarrow> string \<Rightarrow> nat \<Rightarrow> fault + buffer" where
  "memcpy dst src n =
     (if n \<le> length dst \<and> n \<le> Suc (length src)
      then Inr (take n (src @ [CHR 0x00]) @ drop n dst)
      else Inl OutOfBounds)"

text \<open>
  \<^verbatim>\<open>maxncpy - 1\<close> on a 64-bit \<^verbatim>\<open>size_t\<close>: it wraps around at zero.
  \<^verbatim>\<open>BLI_assert(maxncpy != 0)\<close> is compiled out of release builds and is not modelled.
\<close>

definition size_t_dec :: "nat \<Rightarrow> nat" where
  "size_t_dec n = (if n = 0 then 2 ^ 64 - 1 else n - 1)"

text \<open>
  \<^verbatim>\<open>size_t srclen = BLI_strnlen(src, maxncpy - 1);
  memcpy(dst, src, srclen); dst[srclen] = '\0'; return srclen;\<close>
\<close>

definition BLI_strncpy_rlen :: "buffer \<Rightarrow> string \<Rightarrow> nat \<Rightarrow> fault + buffer \<times> nat" where
  "BLI_strncpy_rlen dst src maxncpy =
     (let srclen = BLI_strnlen src (size_t_dec maxncpy) in
      case memcpy dst src srclen of
        Inl f \<Rightarrow> Inl f
      | Inr dst1 \<Rightarrow>
          (case poke dst1 srclen (CHR 0x00) of
             Inl f \<Rightarrow> Inl f
           | Inr dst2 \<Rightarrow> Inr (dst2, srclen)))"

text \<open>The same body, returning \<^verbatim>\<open>dst\<close>.\<close>

definition BLI_strncpy :: "buffer \<Rightarrow> string \<Rightarrow> nat \<Rightarrow> fault + buffer" where
  "BLI_strncpy dst src maxncpy =
     (let srclen = BLI_strnlen src (size_t_dec maxncpy) in
      case memcpy dst src srclen of
        Inl f \<Rightarrow> Inl f
      | Inr dst1 \<Rightarrow> poke dst1 srclen (CHR 0x00))"

section \<open>Escaping and unescaping\<close>

text \<open>
  The condition of \<^verbatim>\<open>BLI_str_escape\<close> that decides whether a byte is escaped, with the
  side effect that replaces a control character by its letter: backslash and double quote
  are used as they are, tab, newline, carriage return, bell, backspace and form feed
  become \<^verbatim>\<open>t n r a b f\<close>.
\<close>

definition escape_char :: "char \<Rightarrow> char option" where
  "escape_char c =
     (if c = CHR 0x5C \<or> c = CHR 0x22 then Some c
      else if c = CHR 0x09 then Some (CHR ''t'')
      else if c = CHR 0x0A then Some (CHR ''n'')
      else if c = CHR 0x0D then Some (CHR ''r'')
      else if c = CHR 0x07 then Some (CHR ''a'')
      else if c = CHR 0x08 then Some (CHR ''b'')
      else if c = CHR 0x0C then Some (CHR ''f'')
      else None)"

text \<open>The end of both loops: \<^verbatim>\<open>*dst = '\0'; return len;\<close>\<close>

definition terminate :: "buffer \<Rightarrow> nat \<Rightarrow> fault + buffer \<times> nat" where
  "terminate dst len =
     (case poke dst len (CHR 0x00) of Inl f \<Rightarrow> Inl f | Inr dst1 \<Rightarrow> Inr (dst1, len))"

text \<open>
  \<^verbatim>\<open>for (; (len < dst_maxncpy) && (*src != '\0'); dst++, src++, len++) {
    char c = *src;
    if (<c is escaped>) {
      if (UNLIKELY(len + 1 >= dst_maxncpy)) { break; }
      *dst++ = '\\'; len++;
    }
    *dst = c;
  }
  *dst = '\0'; return len;\<close>
  The pointer \<^verbatim>\<open>dst\<close> always is \<^verbatim>\<open>len\<close> bytes behind the start of the destination, so
  the model keeps the buffer and \<^verbatim>\<open>len\<close>.
\<close>

fun escape_loop :: "buffer \<Rightarrow> nat \<Rightarrow> string \<Rightarrow> nat \<Rightarrow> fault + buffer \<times> nat" where
  "escape_loop dst len [] dst_maxncpy = terminate dst len"
| "escape_loop dst len (c # src) dst_maxncpy =
     (if len < dst_maxncpy \<and> c \<noteq> CHR 0x00 then
        (case escape_char c of
           Some e \<Rightarrow>
             if len + 1 \<ge> dst_maxncpy then terminate dst len
             else
               (case poke dst len (CHR 0x5C) of
                  Inl f \<Rightarrow> Inl f
                | Inr dst1 \<Rightarrow>
                    (case poke dst1 (len + 1) e of
                       Inl f \<Rightarrow> Inl f
                     | Inr dst2 \<Rightarrow> escape_loop dst2 (len + 2) src dst_maxncpy))
         | None \<Rightarrow>
             (case poke dst len c of
                Inl f \<Rightarrow> Inl f
              | Inr dst1 \<Rightarrow> escape_loop dst1 (len + 1) src dst_maxncpy))
      else terminate dst len)"

definition BLI_str_escape :: "buffer \<Rightarrow> string \<Rightarrow> nat \<Rightarrow> fault + buffer \<times> nat" where
  "BLI_str_escape dst src dst_maxncpy = escape_loop dst 0 src dst_maxncpy"

text \<open>
  The condition of \<^verbatim>\<open>BLI_str_unescape\<close> on the byte behind a backslash, with the byte it
  decodes to.
\<close>

definition unescape_char :: "char \<Rightarrow> char option" where
  "unescape_char c_next =
     (if c_next = CHR 0x22 then Some (CHR 0x22)
      else if c_next = CHR 0x5C then Some (CHR 0x5C)
      else if c_next = CHR ''t'' then Some (CHR 0x09)
      else if c_next = CHR ''n'' then Some (CHR 0x0A)
      else if c_next = CHR ''r'' then Some (CHR 0x0D)
      else if c_next = CHR ''a'' then Some (CHR 0x07)
      else if c_next = CHR ''b'' then Some (CHR 0x08)
      else if c_next = CHR ''f'' then Some (CHR 0x0C)
      else None)"

text \<open>
  \<^verbatim>\<open>for (size_t i = 0; i < src_maxncpy && (*src != '\0'); i++, src++) {
    char c = *src;
    if (c == '\\') {
      char c_next = *(src + 1);
      if (<c_next is recognised>) { i++; src++; }
    }
    dst[len++] = c;
  }
  dst[len] = 0; return len;\<close>
\<close>

fun unescape_loop :: "buffer \<Rightarrow> nat \<Rightarrow> string \<Rightarrow> nat \<Rightarrow> nat \<Rightarrow> fault + buffer \<times> nat" where
  "unescape_loop dst len [] i src_maxncpy = terminate dst len"
| "unescape_loop dst len (c # src) i src_maxncpy =
     (if i < src_maxncpy \<and> c \<noteq> CHR 0x00 then
        (case (if c = CHR 0x5C then unescape_char (peek src) else None) of
           Some d \<Rightarrow>
             (case poke dst len d of
                Inl f \<Rightarrow> Inl f
              | Inr dst1 \<Rightarrow> unescape_loop dst1 (len + 1) (tl src) (i + 2) src_maxncpy)
         | None \<Rightarrow>
             (case poke dst len c of
                Inl f \<Rightarrow> Inl f
              | Inr dst1 \<Rightarrow> unescape_loop dst1 (len + 1) src (i + 1) src_maxncpy))
      else terminate dst len)"

definition BLI_str_unescape :: "buffer \<Rightarrow> string \<Rightarrow> nat \<Rightarrow> fault + buffer \<times> nat" where
  "BLI_str_unescape dst src src_maxncpy = unescape_loop dst 0 src 0 src_maxncpy"

text \<open>
  \<^verbatim>\<open>bool escape = false;
  while (*str && (*str != '"' || escape)) {
    escape = (escape == false) && (*str == '\\');
    str++;
  }
  return (*str == '"') ? str : NULL;\<close>
  The result is the offset of the quote from \<^verbatim>\<open>str\<close>.
\<close>

fun find_quote_loop :: "string \<Rightarrow> bool \<Rightarrow> nat option" where
  "find_quote_loop [] escape = None"
| "find_quote_loop (c # str) escape =
     (if c \<noteq> CHR 0x00 \<and> (c \<noteq> CHR 0x22 \<or> escape)
      then map_option Suc (find_quote_loop str (escape = False \<and> c = CHR 0x5C))
      else if c = CHR 0x22 then Some 0 else None)"

definition BLI_str_escape_find_quote :: "string \<Rightarrow> nat option" where
  "BLI_str_escape_find_quote str = find_quote_loop str False"

text \<open>
  The text that escaping produces, as a function of the source string: every byte gives
  itself, or a backslash and its letter.
\<close>

definition esc_bytes :: "char \<Rightarrow> string" where
  "esc_bytes c = (case escape_char c of Some e \<Rightarrow> [CHR 0x5C, e] | None \<Rightarrow> [c])"

definition escaped :: "string \<Rightarrow> string" where
  "escaped s = concat (map esc_bytes s)"

section \<open>Quoted substring\<close>

text \<open>
  \<^verbatim>\<open>strstr\<close> of the C library: the offset of the first occurrence of the string
  \<^verbatim>\<open>needle\<close> in the string \<^verbatim>\<open>haystack\<close>, or \<^verbatim>\<open>NULL\<close>. \<open>starts_with h needle\<close> compares
  the bytes of \<^verbatim>\<open>needle\<close> up to its terminator with those at \<open>h\<close>.
\<close>

fun starts_with :: "string \<Rightarrow> string \<Rightarrow> bool" where
  "starts_with h [] = True"
| "starts_with h (c # needle) =
     (if c = CHR 0x00 then True
      else (case h of [] \<Rightarrow> False | d # h' \<Rightarrow> d = c \<and> starts_with h' needle))"

fun strstr :: "string \<Rightarrow> string \<Rightarrow> nat option" where
  "strstr [] needle = (if starts_with [] needle then Some 0 else None)"
| "strstr (c # h) needle =
     (if starts_with (c # h) needle then Some 0
      else if c = CHR 0x00 then None
      else map_option Suc (strstr h needle))"

text \<open>
  Modelled from the spec: the allocator (\<^verbatim>\<open>MEM_mallocN\<close>, \<^verbatim>\<open>MEM_reallocN\<close> of
  \<^verbatim>\<open>MEM_guardedalloc.h\<close>) is not among the sources. The spec has heap strings
  ``allocated-and-returned-as-owned'' and ``exactly-sized''; a fresh block has the length
  asked for and unspecified contents, given here by \<open>junk\<close>, and a block that is resized
  keeps its first bytes.
\<close>

definition MEM_mallocN :: "(nat \<Rightarrow> char) \<Rightarrow> nat \<Rightarrow> buffer" where
  "MEM_mallocN junk len = map junk [0..<len]"

definition MEM_reallocN :: "(nat \<Rightarrow> char) \<Rightarrow> buffer \<Rightarrow> nat \<Rightarrow> buffer" where
  "MEM_reallocN junk buf len = take len buf @ map junk [length buf..<len]"

text \<open>
  \<^verbatim>\<open>start_match = strstr(str, prefix);
  if (start_match) {
    const size_t prefix_len = strlen(prefix);
    start_match += prefix_len + 1;
    end_match = BLI_str_escape_find_quote(start_match);
    if (end_match) {
      const size_t escaped_len = (size_t)(end_match - start_match);
      char *result = MEM_mallocN(sizeof(char) * (escaped_len + 1), __func__);
      const size_t unescaped_len = BLI_str_unescape(result, start_match, escaped_len);
      if (unescaped_len != escaped_len) {
        result = MEM_reallocN(result, sizeof(char) * (unescaped_len + 1));
      }
      return result;
    }
  }
  return NULL;\<close>
  When the prefix ends the string, \<^verbatim>\<open>start_match\<close> is moved behind the terminator and
  the function reads outside of the string.
\<close>

definition BLI_str_quoted_substrN :: "(nat \<Rightarrow> char) \<Rightarrow> string \<Rightarrow> string \<Rightarrow> fault + buffer option" where
  "BLI_str_quoted_substrN junk str prefix =
     (case strstr str prefix of
        None \<Rightarrow> Inr None
      | Some start \<Rightarrow>
          let prefix_len = strlen prefix in
          if length str < start + prefix_len + 1 then Inl OutOfBounds
          else
            let start_match = drop (start + prefix_len + 1) str in
            (case BLI_str_escape_find_quote start_match of
               None \<Rightarrow> Inr None
             | Some escaped_len \<Rightarrow>
                 let result = MEM_mallocN junk (escaped_len + 1) in
                 (case BLI_str_unescape result start_match escaped_len of
                    Inl f \<Rightarrow> Inl f
                  | Inr (result1, unescaped_len) \<Rightarrow>
                      Inr (Some (if unescaped_len \<noteq> escaped_len
                                 then MEM_reallocN junk result1 (unescaped_len + 1)
                                 else result1)))))"

section \<open>Natural comparison\<close>

text \<open>
  \<^verbatim>\<open>isdigit\<close> and \<^verbatim>\<open>tolower\<close> of the C library, in the C locale: the digits are the
  bytes \<^verbatim>\<open>'0'\<close> to \<^verbatim>\<open>'9'\<close>, and only the letters \<^verbatim>\<open>'A'\<close> to \<^verbatim>\<open>'Z'\<close> are folded.
\<close>

definition isdigit :: "char \<Rightarrow> bool" where
  "isdigit c = (48 \<le> (of_char c :: nat) \<and> (of_char c :: nat) \<le> 57)"

definition tolower :: "char \<Rightarrow> char" where
  "tolower c = (if 65 \<le> (of_char c :: nat) \<and> (of_char c :: nat) \<le> 90 then char_of (of_char c + (32 :: nat)) else c)"

text \<open>
  The value of a \<^verbatim>\<open>char\<close> in a comparison \<^verbatim>\<open>c1 < c2\<close>: \<^verbatim>\<open>char\<close> is signed on the
  platforms the code is built for, so the bytes from 128 on are negative.
\<close>

definition char_value :: "char \<Rightarrow> int" where
  "char_value c = (if (of_char c :: nat) < 128 then int (of_char c) else int (of_char c) - 256)"

text \<open>
  \<^verbatim>\<open>strncmp\<close> and \<^verbatim>\<open>strcmp\<close> of the C library compare bytes as \<^verbatim>\<open>unsigned char\<close>. The
  standard fixes the sign of the result only; the model returns the difference of the
  first two bytes that differ.
\<close>

fun strncmp :: "string \<Rightarrow> string \<Rightarrow> nat \<Rightarrow> int" where
  "strncmp s1 s2 0 = 0"
| "strncmp s1 s2 (Suc n) =
     (if peek s1 \<noteq> peek s2 then of_char (peek s1) - of_char (peek s2)
      else if peek s1 = CHR 0x00 then 0
      else strncmp (tl s1) (tl s2) n)"

fun strcmp :: "string \<Rightarrow> string \<Rightarrow> int" where
  "strcmp [] s2 = 0 - of_char (peek s2)"
| "strcmp (c1 # s1) s2 =
     (if c1 \<noteq> peek s2 then of_char c1 - of_char (peek s2)
      else if c1 = CHR 0x00 then 0
      else strcmp s1 (tl s2))"

text \<open>
  The loop of \<^verbatim>\<open>left_number_strcmp\<close> that counts the digits both numbers have:
  \<^verbatim>\<open>for (numdigit = 0;; numdigit++) {
    if (isdigit(*(p1 + numdigit)) && isdigit(*(p2 + numdigit))) { continue; }
    if (isdigit(*(p1 + numdigit))) { return 1; }
    if (isdigit(*(p2 + numdigit))) { return -1; }
    break;
  }\<close>
  \<open>Inl r\<close> is a \<^verbatim>\<open>return r\<close> of the function, \<open>Inr numdigit\<close> the \<^verbatim>\<open>break\<close>.
\<close>

fun digit_run :: "string \<Rightarrow> string \<Rightarrow> nat \<Rightarrow> int + nat" where
  "digit_run (a # p1) (b # p2) numdigit =
     (if isdigit a \<and> isdigit b then digit_run p1 p2 (Suc numdigit)
      else if isdigit a then Inl 1
      else if isdigit b then Inl (- 1)
      else Inr numdigit)"
| "digit_run p1 p2 numdigit =
     (if isdigit (peek p1) then Inl 1
      else if isdigit (peek p2) then Inl (- 1)
      else Inr numdigit)"

text \<open>
  \<^verbatim>\<open>for (numzero1 = 0; *p1 == '0'; numzero1++) { p1++; }\<close>: the count, and where \<^verbatim>\<open>p1\<close>
  stops. The counters of the comparison are \<^verbatim>\<open>int\<close>; they are natural numbers here,
  which is the same for every string of less than \<open>2\<^sup>3\<^sup>1\<close> bytes.
\<close>

definition numzero :: "string \<Rightarrow> nat" where
  "numzero s = length (takeWhile (\<lambda>c. c = CHR ''0'') s)"

definition skip_zeros :: "string \<Rightarrow> string" where
  "skip_zeros s = dropWhile (\<lambda>c. c = CHR ''0'') s"

text \<open>
  \<^verbatim>\<open>left_number_strcmp(s1, s2, &tiebreaker)\<close>: the value returned and the new value of
  \<^verbatim>\<open>*tiebreaker\<close>.
  \<^verbatim>\<open>if (numdigit > 0) {
    int compare = (int)strncmp(p1, p2, (size_t)numdigit);
    if (compare != 0) { return compare; }
  }
  if (*tiebreaker == 0) {
    if (numzero1 > numzero2) { *tiebreaker = 1; }
    else if (numzero1 < numzero2) { *tiebreaker = -1; }
  }
  return 0;\<close>
\<close>

definition left_number_strcmp :: "string \<Rightarrow> string \<Rightarrow> int \<Rightarrow> int \<times> int" where
  "left_number_strcmp s1 s2 tiebreaker =
     (let numzero1 = numzero s1; p1 = skip_zeros s1;
          numzero2 = numzero s2; p2 = skip_zeros s2
      in case digit_run p1 p2 0 of
           Inl r \<Rightarrow> (r, tiebreaker)
         | Inr numdigit \<Rightarrow>
             let compare = (if numdigit > 0 then strncmp p1 p2 numdigit else 0) in
             if compare \<noteq> 0 then (compare, tiebreaker)
             else (0, if tiebreaker = 0
                      then (if numzero1 > numzero2 then 1
                            else if numzero1 < numzero2 then - 1
                            else tiebreaker)
                      else tiebreaker))"

text \<open>
  The first half of the body of the loop of \<^verbatim>\<open>BLI_strcasecmp_natural\<close>:
  \<^verbatim>\<open>if (isdigit(s1[d1]) && isdigit(s2[d2])) {
    int numcompare = left_number_strcmp(s1 + d1, s2 + d2, &tiebreaker);
    if (numcompare != 0) { return numcompare; }
    d1++; while (isdigit(s1[d1])) { d1++; }
    d2++; while (isdigit(s2[d2])) { d2++; }
  }\<close>
  \<open>Inl\<close> is the \<^verbatim>\<open>return\<close>; \<open>Inr\<close> gives \<^verbatim>\<open>s1 + d1\<close>, \<^verbatim>\<open>s2 + d2\<close> and the tie-breaker
  behind the block.
\<close>

definition digit_step :: "string \<Rightarrow> string \<Rightarrow> int \<Rightarrow> int + string \<times> string \<times> int" where
  "digit_step s1 s2 tiebreaker =
     (if isdigit (peek s1) \<and> isdigit (peek s2) then
        (case left_number_strcmp s1 s2 tiebreaker of
           (numcompare, tiebreaker1) \<Rightarrow>
             if numcompare \<noteq> 0 then Inl numcompare
             else Inr (dropWhile isdigit (tl s1), dropWhile isdigit (tl s2), tiebreaker1))
      else Inr (s1, s2, tiebreaker))"

text \<open>
  The comparison of two bytes outside of numbers; \<open>None\<close> continues the loop.
  \<^verbatim>\<open>c1 = tolower(s1[d1]); c2 = tolower(s2[d2]);
  if (c1 == c2) { }
  else if (c1 == '.') { return -1; }
  else if (c2 == '.') { return 1; }
  else if (c1 < c2) { return -1; }
  else if (c1 > c2) { return 1; }\<close>
\<close>

definition char_step :: "char \<Rightarrow> char \<Rightarrow> int option" where
  "char_step a b =
     (let c1 = tolower a; c2 = tolower b in
      if c1 = c2 then None
      else if c1 = CHR ''.'' then Some (- 1)
      else if c2 = CHR ''.'' then Some 1
      else if char_value c1 < char_value c2 then Some (- 1)
      else if char_value c1 > char_value c2 then Some 1
      else None)"

lemma digit_step_length:
  "digit_step s1 s2 t = Inr (t1, t2, t') \<Longrightarrow> length t1 \<le> length s1"
  by (auto simp: digit_step_def split: if_splits prod.splits intro: le_trans [OF length_dropWhile_le])

text \<open>
  The loop \<^verbatim>\<open>while (1)\<close>: after the digit block,
  \<^verbatim>\<open>if (ELEM(0, s1[d1], s2[d2])) { break; }\<close>, the comparison of the two bytes, and
  \<^verbatim>\<open>d1++; d2++;\<close>. \<open>Inl r\<close> is a \<^verbatim>\<open>return r\<close> inside the loop, \<open>Inr tiebreaker\<close> the
  \<^verbatim>\<open>break\<close> with the value the tie-breaker has then.
\<close>

function natural_loop :: "string \<Rightarrow> string \<Rightarrow> int \<Rightarrow> int + int" where
  "natural_loop s1 s2 tiebreaker =
     (case digit_step s1 s2 tiebreaker of
        Inl numcompare \<Rightarrow> Inl numcompare
      | Inr (t1, t2, tiebreaker1) \<Rightarrow>
          if peek t1 = CHR 0x00 \<or> peek t2 = CHR 0x00 then Inr tiebreaker1
          else (case char_step (peek t1) (peek t2) of
                  Some r \<Rightarrow> Inl r
                | None \<Rightarrow> natural_loop (tl t1) (tl t2) tiebreaker1))"
  by pat_completeness auto
termination
proof (relation "measure (\<lambda>(s1, s2, t). length s1)")
  show "wf (measure (\<lambda>(s1 :: string, s2 :: string, t :: int). length s1))"
    by simp
next
  fix s1 s2 :: string and tiebreaker :: int and x2 :: "string \<times> string \<times> int"
    and t1 :: string and y :: "string \<times> int" and t2 :: string and tiebreaker1 :: int
  assume "digit_step s1 s2 tiebreaker = Inr x2" "(t1, y) = x2" "(t2, tiebreaker1) = y"
    and "\<not> (peek t1 = CHR 0x00 \<or> peek t2 = CHR 0x00)"
  then have "length t1 \<le> length s1" "t1 \<noteq> []"
    using digit_step_length [of s1 s2 tiebreaker t1 t2 tiebreaker1] by (auto simp: peek_def)
  then show "((tl t1, tl t2, tiebreaker1), s1, s2, tiebreaker) \<in> measure (\<lambda>(s1, s2, t). length s1)"
    by (cases t1) auto
qed

declare natural_loop.simps [simp del]

text \<open>
  Behind the loop: \<^verbatim>\<open>if (tiebreaker) { return tiebreaker; } return strcmp(s1, s2);\<close>
\<close>

definition BLI_strcasecmp_natural :: "string \<Rightarrow> string \<Rightarrow> int" where
  "BLI_strcasecmp_natural s1 s2 =
     (case natural_loop s1 s2 0 of
        Inl r \<Rightarrow> r
      | Inr tiebreaker \<Rightarrow> if tiebreaker \<noteq> 0 then tiebreaker else strcmp s1 s2)"


text \<open>
  The words of the claims about numbers. A number is written as \<open>k\<close> zeros and digits
  \<open>d\<close>; the digits are significant when they do not begin with a zero; \<open>decimal\<close> is the
  value of a run of digits.
\<close>

definition zeros :: "nat \<Rightarrow> string" where
  "zeros k = replicate k (CHR ''0'')"

text \<open>
  The tie-breaker behind a pair of numerically equal numbers with \<open>k1\<close> and \<open>k2\<close> leading
  zeros: a value that is set stays, otherwise the string with fewer zeros is the smaller
  one.
\<close>

definition tie :: "int \<Rightarrow> nat \<Rightarrow> nat \<Rightarrow> int" where
  "tie t k1 k2 = (if t \<noteq> 0 then t else if k2 < k1 then 1 else if k1 < k2 then - 1 else 0)"

definition significant :: "string \<Rightarrow> bool" where
  "significant d = (list_all isdigit d \<and> (d = [] \<or> hd d \<noteq> CHR ''0''))"

definition digit_val :: "char \<Rightarrow> nat" where
  "digit_val c = of_char c - 48"

definition decimal :: "string \<Rightarrow> nat" where
  "decimal n = foldl (\<lambda>v c. 10 * v + digit_val c) 0 n"

text \<open>
  One segment on which the two strings agree. Two numbers (maximal runs of digits, read
  in base ten) agree when their values are equal, and behind them the tie-breaker is
  that of their leading zeros; outside of numbers two bytes, none of them the terminator,
  agree when they are equal after \<^verbatim>\<open>tolower\<close>.
\<close>

definition number_at :: "string \<Rightarrow> string" where
  "number_at s = takeWhile isdigit s"

definition leading_zeros :: "string \<Rightarrow> nat" where
  "leading_zeros n = length (takeWhile (\<lambda>c. c = CHR ''0'') n)"

definition segment :: "string \<Rightarrow> string \<Rightarrow> int \<Rightarrow> (string \<times> string \<times> int) option" where
  "segment s1 s2 t =
     (if isdigit (peek s1) \<and> isdigit (peek s2) then
        (if decimal (number_at s1) = decimal (number_at s2)
         then Some (dropWhile isdigit s1, dropWhile isdigit s2,
                    tie t (leading_zeros (number_at s1)) (leading_zeros (number_at s2)))
         else None)
      else if peek s1 \<noteq> CHR 0x00 \<and> peek s2 \<noteq> CHR 0x00
              \<and> \<not> isdigit (peek s1) \<and> \<not> isdigit (peek s2)
              \<and> tolower (peek s1) = tolower (peek s2)
      then Some (tl s1, tl s2, t)
      else None)"

lemma segment_shorter: "segment s1 s2 t = Some (r1, r2, t1) \<Longrightarrow> length r1 < length s1"
proof -
  assume a: "segment s1 s2 t = Some (r1, r2, t1)"
  show ?thesis
  proof (cases s1)
    case Nil
    with a show ?thesis
      by (simp add: segment_def peek_def isdigit_def split: if_splits)
  next
    case (Cons c s)
    have "length (dropWhile isdigit s) \<le> length s"
      by (rule length_dropWhile_le)
    with a Cons show ?thesis
      by (auto simp: segment_def peek_def split: if_splits)
  qed
qed

text \<open>
  \<open>walk s1 s2 t u1 u2 t'\<close>: the two strings agree from \<open>s1\<close>, \<open>s2\<close> up to \<open>u1\<close>, \<open>u2\<close>,
  segment by segment, and the tie-breaker \<open>t\<close> becomes \<open>t'\<close> on the way.
\<close>

function walk :: "string \<Rightarrow> string \<Rightarrow> int \<Rightarrow> string \<Rightarrow> string \<Rightarrow> int \<Rightarrow> bool" where
  "walk s1 s2 t u1 u2 t' =
     (if s1 = u1 \<and> s2 = u2 \<and> t = t' then True
      else (case segment s1 s2 t of
              None \<Rightarrow> False
            | Some (r1, r2, t1) \<Rightarrow> walk r1 r2 t1 u1 u2 t'))"
  by pat_completeness auto
termination
  by (relation "measure (\<lambda>(s1, s2, t, u1, u2, t'). length s1)") (auto dest: segment_shorter)

declare walk.simps [simp del]

text \<open>
  The strings differ at \<open>u1\<close>, \<open>u2\<close> with the result \<open>r\<close>: two numbers that
  \<^verbatim>\<open>left_number_strcmp\<close> tells apart, or two bytes, none of them the terminator, that the
  comparison of bytes tells apart.
\<close>

definition differs_at :: "string \<Rightarrow> string \<Rightarrow> int \<Rightarrow> bool" where
  "differs_at u1 u2 r =
     (if isdigit (peek u1) \<and> isdigit (peek u2)
      then r \<noteq> 0 \<and> fst (left_number_strcmp u1 u2 0) = r
      else peek u1 \<noteq> CHR 0x00 \<and> peek u2 \<noteq> CHR 0x00 \<and> char_step (peek u1) (peek u2) = Some r)"

section \<open>Replacing a substring\<close>

text \<open>
  Modelled from the spec: the dynamic accumulation buffer (\<^verbatim>\<open>BLI_dynstr.h\<close>) is not among
  the sources. The spec gives it ``append of raw bytes'' and ``extraction as a
  newly-owned tightly-sized string'', a buffer ``sized exactly to content length + 1
  (terminator)''. The model keeps the text accumulated so far.
\<close>

type_synonym DynStr = string

definition BLI_dynstr_new :: DynStr where
  "BLI_dynstr_new = []"

definition BLI_dynstr_append :: "DynStr \<Rightarrow> string \<Rightarrow> DynStr" where
  "BLI_dynstr_append ds s = ds @ cstr s"

definition BLI_dynstr_nappend :: "DynStr \<Rightarrow> string \<Rightarrow> nat \<Rightarrow> DynStr" where
  "BLI_dynstr_nappend ds s len = ds @ take len (cstr s)"

definition BLI_dynstr_get_cstring :: "DynStr \<Rightarrow> buffer" where
  "BLI_dynstr_get_cstring ds = ds @ [CHR 0x00]"

text \<open>
  \<^verbatim>\<open>char *n = MEM_mallocN(len + 1, "strdup"); memcpy(n, str, len); n[len] = '\0'; return n;\<close>
\<close>

definition BLI_strdupn :: "(nat \<Rightarrow> char) \<Rightarrow> string \<Rightarrow> nat \<Rightarrow> fault + buffer" where
  "BLI_strdupn junk str len =
     (let n = MEM_mallocN junk (len + 1) in
      case memcpy n str len of
        Inl f \<Rightarrow> Inl f
      | Inr n1 \<Rightarrow> poke n1 len (CHR 0x00))"

definition BLI_strdup :: "(nat \<Rightarrow> char) \<Rightarrow> string \<Rightarrow> fault + buffer" where
  "BLI_strdup junk str = BLI_strdupn junk str (strlen str)"

text \<open>
  The loop of \<^verbatim>\<open>BLI_str_replaceN\<close>. With an empty \<^verbatim>\<open>substr_old\<close> it never ends
  (\<^verbatim>\<open>BLI_assert(substr_old[0] != '\0')\<close> is compiled out of release builds), so the loop
  is a partial function: \<open>None\<close> when it does not return.
  \<^verbatim>\<open>while ((match = strstr(str, substr_old))) {
    if (ds == NULL) { ds = BLI_dynstr_new(); }
    if (str != match) {
      BLI_dynstr_nappend(ds, str, (match - str));
      str = match;
    }
    BLI_dynstr_append(ds, substr_new);
    str += len_old;
  }\<close>
\<close>

partial_function (option) replace_loop ::
  "DynStr option \<Rightarrow> string \<Rightarrow> string \<Rightarrow> string \<Rightarrow> nat \<Rightarrow> (DynStr option \<times> string) option" where
  "replace_loop ds str substr_old substr_new len_old =
     (case strstr str substr_old of
        None \<Rightarrow> Some (ds, str)
      | Some match \<Rightarrow>
          replace_loop
            (Some (BLI_dynstr_append
               (let ds1 = (case ds of None \<Rightarrow> BLI_dynstr_new | Some d \<Rightarrow> d)
                in if match \<noteq> 0 then BLI_dynstr_nappend ds1 str match else ds1)
               substr_new))
            (drop (match + len_old) str) substr_old substr_new len_old)"

declare replace_loop.simps [code]

text \<open>
  Behind the loop:
  \<^verbatim>\<open>if (ds) {
    BLI_dynstr_append(ds, str);
    str_new = BLI_dynstr_get_cstring(ds);
    BLI_dynstr_free(ds);
    return str_new;
  }
  return BLI_strdup(str);\<close>
\<close>

definition BLI_str_replaceN :: "(nat \<Rightarrow> char) \<Rightarrow> string \<Rightarrow> string \<Rightarrow> string \<Rightarrow> (fault + buffer) option" where
  "BLI_str_replaceN junk str substr_old substr_new =
     (let len_old = strlen substr_old in
      case replace_loop None str substr_old substr_new len_old of
        None \<Rightarrow> None
      | Some (Some ds, str1) \<Rightarrow> Some (Inr (BLI_dynstr_get_cstring (BLI_dynstr_append ds str1)))
      | Some (None, str1) \<Rightarrow> Some (BLI_strdup junk str1))"

text \<open>
  The reference of the claim, in the claim's words: a naive replace-all that replaces the
  leftmost occurrence and continues behind the replacement. It walks the text byte by
  byte and does not use \<^verbatim>\<open>strstr\<close>.
\<close>

function replace_all_ref :: "string \<Rightarrow> string \<Rightarrow> string \<Rightarrow> string" where
  "replace_all_ref old new s =
     (if old = [] then s
      else if take (length old) s = old then new @ replace_all_ref old new (drop (length old) s)
      else (case s of [] \<Rightarrow> [] | c # cs \<Rightarrow> c # replace_all_ref old new cs))"
  by pat_completeness auto
termination
proof (relation "measure (\<lambda>(old, new, s). length s)")
  show "wf (measure (\<lambda>(old :: string, new :: string, s :: string). length s))"
    by simp
next
  fix old new s :: string
  assume "old \<noteq> []" "take (length old) s = old"
  then have "s \<noteq> []" by auto
  with \<open>old \<noteq> []\<close> show "((old, new, drop (length old) s), old, new, s) \<in> measure (\<lambda>(old, new, s). length s)"
    by simp
next
  fix old new s :: string and c cs
  assume "s = c # cs"
  then show "((old, new, cs), old, new, s) \<in> measure (\<lambda>(old, new, s). length s)"
    by simp
qed

declare replace_all_ref.simps [simp del]


text \<open>The text held by the optional buffer \<^verbatim>\<open>ds\<close> of the loop.\<close>

definition dynstr_text :: "DynStr option \<Rightarrow> string" where
  "dynstr_text ds = (case ds of None \<Rightarrow> [] | Some d \<Rightarrow> d)"

section \<open>Word prefix search\<close>

text \<open>\<^verbatim>\<open>ispunct\<close> of the C library, in the C locale: the printing bytes that are neither a
  space nor alphanumeric.\<close>

definition ispunct :: "char \<Rightarrow> bool" where
  "ispunct c =
     (let v = (of_char c :: nat) in
      (33 \<le> v \<and> v \<le> 47) \<or> (58 \<le> v \<and> v \<le> 64) \<or> (91 \<le> v \<and> v \<le> 96) \<or> (123 \<le> v \<and> v \<le> 126))"

text \<open>
  \<^verbatim>\<open>for (i = 0; i < len; i++) {
    c1 = tolower(s1[i]); c2 = tolower(s2[i]);
    if (c1 < c2) { return -1; }
    if (c1 > c2) { return 1; }
    if (c1 == 0) { break; }
  }
  return 0;\<close>
\<close>

fun BLI_strncasecmp :: "string \<Rightarrow> string \<Rightarrow> nat \<Rightarrow> int" where
  "BLI_strncasecmp s1 s2 0 = 0"
| "BLI_strncasecmp s1 s2 (Suc len) =
     (let c1 = tolower (peek s1); c2 = tolower (peek s2) in
      if char_value c1 < char_value c2 then - 1
      else if char_value c1 > char_value c2 then 1
      else if c1 = CHR 0x00 then 0
      else BLI_strncasecmp (tl s1) (tl s2) len)"

text \<open>
  The search of \<^verbatim>\<open>BLI_strncasestr\<close> for the lowered first byte \<^verbatim>\<open>c\<close> of the needle and,
  when \<^verbatim>\<open>len > 1\<close>, for the rest of it (\<^verbatim>\<open>find\<close> points behind the first byte). The two
  nested \<^verbatim>\<open>do ... while\<close> loops advance one byte of \<^verbatim>\<open>s\<close> at a time; the result is the
  offset of the match, the value of \<^verbatim>\<open>s\<close> after the final \<^verbatim>\<open>s--\<close>.
  \<^verbatim>\<open>do {
    do {
      if ((sc = *s++) == 0) { return NULL; }
      sc = tolower(sc);
    } while (sc != c);
  } while (BLI_strncasecmp(s, find, len - 1) != 0);\<close>
  With \<^verbatim>\<open>len <= 1\<close> only the inner loop runs.
\<close>

fun strncasestr_scan :: "char \<Rightarrow> string \<Rightarrow> nat \<Rightarrow> string \<Rightarrow> nat option" where
  "strncasestr_scan c find' len [] = None"
| "strncasestr_scan c find' len (sc # s) =
     (if sc = CHR 0x00 then None
      else if tolower sc = c \<and> (len \<le> 1 \<or> BLI_strncasecmp s find' (len - 1) = 0) then Some 0
      else map_option Suc (strncasestr_scan c find' len s))"

text \<open>\<^verbatim>\<open>if ((c = *find++) != 0) { c = tolower(c); ... s--; } return ((char *)s);\<close>\<close>

definition BLI_strncasestr :: "string \<Rightarrow> string \<Rightarrow> nat \<Rightarrow> nat option" where
  "BLI_strncasestr s find' len =
     (if peek find' \<noteq> CHR 0x00 then strncasestr_scan (tolower (peek find')) (tl find') len s
      else Some 0)"

lemma strncasestr_scan_less: "strncasestr_scan c find' len s = Some k \<Longrightarrow> k < length s"
  by (induction s arbitrary: k) (auto split: if_splits)

lemma BLI_strncasestr_less:
  "BLI_strncasestr s find' len = Some k \<Longrightarrow> k \<noteq> 0 \<Longrightarrow> k < length s"
  by (auto simp: BLI_strncasestr_def split: if_splits dest: strncasestr_scan_less)

text \<open>
  \<^verbatim>\<open>const char *match = BLI_strncasestr(haystack, needle, needle_len);
  if (match) {
    if ((match == haystack) || (*(match - 1) == ' ') || ispunct(*(match - 1))) {
      return true;
    }
    return BLI_string_has_word_prefix(match + 1, needle, needle_len);
  }
  return false;\<close>
  The recursive call takes \<^verbatim>\<open>match + 1\<close> as its haystack, so \<^verbatim>\<open>match == haystack\<close> there
  compares with the start of the rest, not of the string.
\<close>

function BLI_string_has_word_prefix :: "string \<Rightarrow> string \<Rightarrow> nat \<Rightarrow> bool" where
  "BLI_string_has_word_prefix haystack needle needle_len =
     (case BLI_strncasestr haystack needle needle_len of
        None \<Rightarrow> False
      | Some match \<Rightarrow>
          if match = 0 \<or> haystack ! (match - 1) = CHR '' '' \<or> ispunct (haystack ! (match - 1))
          then True
          else BLI_string_has_word_prefix (drop (match + 1) haystack) needle needle_len)"
  by pat_completeness auto
termination
proof (relation "measure (\<lambda>(haystack, needle, needle_len). length haystack)")
  show "wf (measure (\<lambda>(haystack :: string, needle :: string, needle_len :: nat). length haystack))"
    by simp
next
  fix haystack needle :: string and needle_len match :: nat
  assume "BLI_strncasestr haystack needle needle_len = Some match"
    and "\<not> (match = 0 \<or> haystack ! (match - 1) = CHR '' '' \<or> ispunct (haystack ! (match - 1)))"
  then have "match < length haystack"
    by (auto dest: BLI_strncasestr_less)
  then show "((drop (match + 1) haystack, needle, needle_len), haystack, needle, needle_len)
      \<in> measure (\<lambda>(haystack, needle, needle_len). length haystack)"
    by simp
qed

declare BLI_string_has_word_prefix.simps [simp del]

text \<open>
  The words of the claim: \<open>word\<close> occurs in \<open>text\<close> at offset \<open>p\<close>, letters compared
  without case; offset \<open>p\<close> is a word boundary of \<open>text\<close>, that is its start or a place
  behind a space or a punctuation character; and some occurrence of the first \<open>n\<close> bytes
  of the needle begins at a word boundary of the haystack.
\<close>

definition occurs_at :: "string \<Rightarrow> string \<Rightarrow> nat \<Rightarrow> bool" where
  "occurs_at text word p =
     (p + length word \<le> length text
      \<and> map tolower (take (length word) (drop p text)) = map tolower word)"

definition word_boundary :: "string \<Rightarrow> nat \<Rightarrow> bool" where
  "word_boundary text p = (p = 0 \<or> text ! (p - 1) = CHR '' '' \<or> ispunct (text ! (p - 1)))"

definition word_prefix_spec :: "string \<Rightarrow> string \<Rightarrow> nat \<Rightarrow> bool" where
  "word_prefix_spec haystack needle n =
     list_ex (\<lambda>p. occurs_at (cstr haystack) (take n (cstr needle)) p \<and> word_boundary (cstr haystack) p)
       [0..<Suc (strlen haystack)]"


text \<open>
  The test the search makes at one place \<open>t\<close> of the haystack.
\<close>

definition hit :: "char \<Rightarrow> string \<Rightarrow> nat \<Rightarrow> string \<Rightarrow> bool" where
  "hit c f len t =
     (case t of [] \<Rightarrow> False
      | sc # s \<Rightarrow> tolower sc = c \<and> (len \<le> 1 \<or> BLI_strncasecmp s f (len - 1) = 0))"

section \<open>Basic facts\<close>

lemma strlen_le_length: "strlen s \<le> length s"
  by (induction s) auto

lemma strlen_append_zero_free:
  "CHR 0x00 \<notin> set s \<Longrightarrow> strlen (s @ t) = length s + strlen t"
  by (induction s) auto

lemma strlen_zero_free: "CHR 0x00 \<notin> set s \<Longrightarrow> strlen s = length s"
  using strlen_append_zero_free [of s "[]"] by simp

lemma cstr_zero_free: "CHR 0x00 \<notin> set (cstr s)"
  unfolding cstr_def by (induction s) auto

lemma cstr_id: "CHR 0x00 \<notin> set s \<Longrightarrow> cstr s = s"
  by (simp add: cstr_def strlen_zero_free)

section \<open>Suffix test: the claim\<close>

text \<open>
  C9. \<^verbatim>\<open>BLI_str_endswith(s, e)\<close>, which is \<^verbatim>\<open>BLI_strn_endswith(s, e, strlen(s))\<close>,
  never faults and returns true only when \<^verbatim>\<open>strlen(e)\<close> is strictly less than
  \<^verbatim>\<open>strlen(s)\<close>; so it is false for a candidate of equal or greater length, for the
  string itself, and for two empty strings.
\<close>

theorem BLI_str_endswith_strictly_shorter:
  "BLI_str_endswith s e = BLI_strn_endswith s e (strlen s)
   \<and> BLI_str_endswith s e \<noteq> Inl OutOfBounds
   \<and> (BLI_str_endswith s e = Inr True \<longrightarrow> strlen e < strlen s)
   \<and> (strlen s \<le> strlen e \<longrightarrow> BLI_str_endswith s e = Inr False)
   \<and> BLI_str_endswith s s = Inr False
   \<and> BLI_str_endswith [] [] = Inr False"
proof -
  have "strlen s - strlen e \<le> length s"
    using strlen_le_length [of s] by arith
  then show ?thesis
    by (simp add: BLI_str_endswith_def BLI_strn_endswith_def Let_def)
qed

theorem BLI_str_endswith_strictly_shorter_witness:
  "BLI_str_endswith ''foo.blend'' ''.blend'' = Inr True
   \<and> strlen ''.blend'' < strlen ''foo.blend''
   \<and> strlen ''.blend'' \<le> strlen ''.blend''
   \<and> BLI_str_endswith ''.blend'' ''.blend'' = Inr False"
proof -
  have t: "BLI_str_endswith ''foo.blend'' ''.blend'' = Inr True"
    by (simp add: BLI_str_endswith_def BLI_strn_endswith_def Let_def peek_def)
  have l: "strlen ''.blend'' \<le> strlen ''.blend''"
    by simp
  from BLI_str_endswith_strictly_shorter [of "''foo.blend''" "''.blend''"] t
  have "strlen ''.blend'' < strlen ''foo.blend''"
    by blast
  moreover from BLI_str_endswith_strictly_shorter [of "''.blend''" "''.blend''"] l
  have "BLI_str_endswith ''.blend'' ''.blend'' = Inr False"
    by blast
  ultimately show ?thesis
    using t l by blast
qed

section \<open>Truncating copy: the claims\<close>

lemma BLI_strnlen_min: "BLI_strnlen s m = min (strlen s) m"
  by (induction s m rule: BLI_strnlen.induct) auto

lemma strlen_take_zero: "n \<le> strlen s \<Longrightarrow> strlen (take n s @ CHR 0x00 # t) = n"
  by (induction s arbitrary: n) (auto simp: take_Cons' split: if_splits)

lemma take_cstr: "take n (cstr s) = take (min n (strlen s)) s"
  by (simp add: cstr_def min.commute)

lemma strncpy_result:
  fixes src :: string
  assumes "1 \<le> c" and "c \<le> length dst"
  defines "n \<equiv> min (strlen src) (c - 1)"
  shows "BLI_strncpy_rlen dst src c = Inr (take n src @ CHR 0x00 # drop (Suc n) dst, n)"
    and "BLI_strncpy dst src c = Inr (take n src @ CHR 0x00 # drop (Suc n) dst)"
proof -
  have n: "n < length dst" "n \<le> length src" "n \<le> strlen src"
    using assms strlen_le_length [of src] by (auto simp: n_def)
  have m: "memcpy dst src n = Inr (take n src @ drop n dst)"
    using n by (simp add: memcpy_def)
  have p: "poke (take n src @ drop n dst) n (CHR 0x00) = Inr (take n src @ CHR 0x00 # drop (Suc n) dst)"
    using n by (simp add: poke_def list_update_append min_absorb2 upd_conv_take_nth_drop drop_Suc_Cons Cons_nth_drop_Suc)
  have s: "BLI_strnlen src (size_t_dec c) = n"
    using assms(1) by (simp add: BLI_strnlen_min size_t_dec_def n_def)
  show "BLI_strncpy_rlen dst src c = Inr (take n src @ CHR 0x00 # drop (Suc n) dst, n)"
    by (simp add: BLI_strncpy_rlen_def s m p)
  show "BLI_strncpy dst src c = Inr (take n src @ CHR 0x00 # drop (Suc n) dst)"
    by (simp add: BLI_strncpy_def s m p)
qed

text \<open>
  C1. For every capacity \<open>c \<ge> 1\<close>, a destination of at least \<open>c\<close> bytes and every
  source, \<^verbatim>\<open>BLI_strncpy\<close> and \<^verbatim>\<open>BLI_strncpy_rlen\<close> write inside the first \<open>c\<close> bytes only
  (no fault, the bytes from \<open>c\<close> on are untouched), the destination holds a zero byte
  at an index below \<open>c\<close>, its string is the source cut to \<open>c - 1\<close> bytes, and it is the
  source exactly when \<^verbatim>\<open>strlen(src) < c\<close>; \<^verbatim>\<open>BLI_strncpy_rlen\<close> returns the number of
  bytes copied, the terminator not counted.
\<close>

theorem BLI_strncpy_truncates:
  assumes "1 \<le> c" and "c \<le> length dst"
  shows "\<exists>dst'. BLI_strncpy dst src c = Inr dst'
     \<and> BLI_strncpy_rlen dst src c = Inr (dst', strlen dst')
     \<and> length dst' = length dst \<and> drop c dst' = drop c dst
     \<and> strlen dst' < c
     \<and> strlen dst' = min (strlen src) (c - 1)
     \<and> cstr dst' = take (c - 1) (cstr src)
     \<and> (strlen src < c \<longrightarrow> cstr dst' = cstr src)"
proof -
  define n where "n = min (strlen src) (c - 1)"
  define dst' where "dst' = take n src @ CHR 0x00 # drop (Suc n) dst"
  have n: "n < length dst" "n \<le> length src" "n \<le> strlen src" "n < c"
    using assms strlen_le_length [of src] by (auto simp: n_def)
  have l: "strlen dst' = n"
    unfolding dst'_def using n(3) by (rule strlen_take_zero)
  have c: "cstr dst' = take n src"
    using n by (simp add: cstr_def l) (simp add: dst'_def)
  have "BLI_strncpy dst src c = Inr dst'" "BLI_strncpy_rlen dst src c = Inr (dst', strlen dst')"
    using strncpy_result [OF assms, of src] by (simp_all add: l) (simp_all add: dst'_def n_def)
  moreover have "length dst' = length dst"
    using n by (simp add: dst'_def)
  moreover have "drop c dst' = drop c dst"
    using n by (simp add: dst'_def drop_Cons')
  moreover have "cstr dst' = take (c - 1) (cstr src)"
    by (simp add: c take_cstr n_def min.commute)
  moreover have "strlen src < c \<longrightarrow> cstr dst' = cstr src"
  proof
    assume "strlen src < c"
    then have "n = strlen src" by (simp add: n_def)
    then show "cstr dst' = cstr src" by (simp add: c) (simp add: cstr_def)
  qed
  ultimately show ?thesis
    using l n by (auto simp: n_def)
qed

theorem BLI_strncpy_truncates_witness:
  "(1::nat) \<le> 4 \<and> (4::nat) \<le> length ''??????'' 
   \<and> BLI_strncpy ''??????'' ''blender'' 4 = Inr (''ble'' @ CHR 0x00 # ''??'')
   \<and> BLI_strncpy_rlen ''??????'' ''blender'' 4 = Inr (''ble'' @ CHR 0x00 # ''??'', 3)
   \<and> BLI_strncpy ''??????'' ''bl'' 4 = Inr (''bl'' @ CHR 0x00 # ''???'')
   \<and> strlen ''bl'' < 4
   \<and> cstr (''bl'' @ CHR 0x00 # ''???'') = cstr ''bl''"
proof -
  have e: "BLI_strncpy ''??????'' ''bl'' 4 = Inr (''bl'' @ CHR 0x00 # ''???'')"
    by (simp add: BLI_strncpy_def memcpy_def poke_def size_t_dec_def eval_nat_numeral)
  have "BLI_strncpy ''??????'' ''blender'' 4 = Inr (''ble'' @ CHR 0x00 # ''??'')"
    "BLI_strncpy_rlen ''??????'' ''blender'' 4 = Inr (''ble'' @ CHR 0x00 # ''??'', 3)"
    by (simp_all add: BLI_strncpy_def BLI_strncpy_rlen_def memcpy_def poke_def size_t_dec_def eval_nat_numeral)
  moreover have p: "(1::nat) \<le> 4" "(4::nat) \<le> length ''??????''" "strlen ''bl'' < 4"
    by simp_all
  moreover from BLI_strncpy_truncates [OF p(1,2), of "''bl''"] p(3)
  obtain d where "BLI_strncpy ''??????'' ''bl'' 4 = Inr d" "cstr d = cstr ''bl''"
    by blast
  with e have "cstr (''bl'' @ CHR 0x00 # ''???'') = cstr ''bl''"
    by simp
  ultimately show ?thesis
    using e by blast
qed

text \<open>
  C10. For every capacity \<open>c \<ge> 1\<close>, two sources whose strings agree on their first
  \<open>c - 1\<close> bytes give the same destination contents and the same return value, in
  \<^verbatim>\<open>BLI_strncpy\<close> and in \<^verbatim>\<open>BLI_strncpy_rlen\<close>: the length is measured by
  \<^verbatim>\<open>BLI_strnlen(src, c - 1)\<close> and nothing behind it is read.
\<close>

theorem BLI_strncpy_prefix_only:
  assumes "1 \<le> c" and "take (c - 1) (cstr s1) = take (c - 1) (cstr s2)"
  shows "BLI_strncpy dst s1 c = BLI_strncpy dst s2 c
     \<and> BLI_strncpy_rlen dst s1 c = BLI_strncpy_rlen dst s2 c"
proof -
  define n1 where "n1 = BLI_strnlen s1 (size_t_dec c)"
  define n2 where "n2 = BLI_strnlen s2 (size_t_dec c)"
  have n: "n1 = min (strlen s1) (c - 1)" "n2 = min (strlen s2) (c - 1)"
    using assms(1) by (simp_all add: n1_def n2_def BLI_strnlen_min size_t_dec_def)
  have l: "n1 \<le> length s1" "n2 \<le> length s2"
    using strlen_le_length [of s1] strlen_le_length [of s2] by (auto simp: n)
  have a: "n1 = n2"
    using arg_cong [OF assms(2), of length] strlen_le_length [of s1] strlen_le_length [of s2]
    by (simp add: cstr_def n)
  have b: "take n1 (s1 @ [CHR 0x00]) = take n2 (s2 @ [CHR 0x00])"
    using assms(2) l by (simp add: take_cstr min.commute n)
  have "memcpy dst s1 n1 =
      (if n1 \<le> length dst then Inr (take n1 (s1 @ [CHR 0x00]) @ drop n1 dst) else Inl OutOfBounds)"
    using l by (simp add: memcpy_def)
  also have "\<dots> =
      (if n2 \<le> length dst then Inr (take n2 (s2 @ [CHR 0x00]) @ drop n2 dst) else Inl OutOfBounds)"
    using b by (simp only: a)
  also have "\<dots> = memcpy dst s2 n2"
    using l by (simp add: memcpy_def)
  finally have m: "memcpy dst s1 n1 = memcpy dst s2 n2" .
  have "BLI_strncpy dst s1 c = BLI_strncpy dst s2 c"
    unfolding BLI_strncpy_def n1_def [symmetric] n2_def [symmetric] Let_def m by (simp only: a)
  moreover have "BLI_strncpy_rlen dst s1 c = BLI_strncpy_rlen dst s2 c"
    unfolding BLI_strncpy_rlen_def n1_def [symmetric] n2_def [symmetric] Let_def m by (simp only: a)
  ultimately show ?thesis ..
qed

theorem BLI_strncpy_prefix_only_witness:
  "(1::nat) \<le> 4 \<and> take (4 - 1) (cstr ''blender'') = take (4 - 1) (cstr ''bleach'')
   \<and> BLI_strncpy ''??????'' ''blender'' 4 = BLI_strncpy ''??????'' ''bleach'' 4
   \<and> BLI_strncpy_rlen ''??????'' ''blender'' 4 = BLI_strncpy_rlen ''??????'' ''bleach'' 4"
proof -
  have h: "take (4 - 1) (cstr ''blender'') = take (4 - 1) (cstr ''bleach'')"
    by (simp add: cstr_def)
  show ?thesis
    using h BLI_strncpy_prefix_only [of 4 "''blender''" "''bleach''" "''??????''"] by simp
qed

section \<open>Escaping and unescaping: the claims\<close>

lemma escaped_simps [simp]:
  "escaped [] = []" "escaped (c # s) = esc_bytes c @ escaped s" "escaped (s @ t) = escaped s @ escaped t"
  by (simp_all add: escaped_def)

lemma poke_append: "rest \<noteq> [] \<Longrightarrow> poke (pre @ rest) (length pre) c = Inr (pre @ c # tl rest)"
  by (cases rest) (simp_all add: poke_def)

lemma terminate_append:
  "rest \<noteq> [] \<Longrightarrow> terminate (pre @ rest) (length pre) = Inr (pre @ CHR 0x00 # tl rest, length pre)"
  by (simp add: terminate_def poke_append)

lemma length_escaped_le: "length (escaped s) \<le> 2 * length s"
  by (induction s) (auto simp: esc_bytes_def split: option.splits)

lemma length_escaped_ge: "length s \<le> length (escaped s)"
  by (induction s) (auto simp: esc_bytes_def split: option.splits)

lemma escaped_zero_free: "CHR 0x00 \<notin> set s \<Longrightarrow> CHR 0x00 \<notin> set (escaped s)"
  by (induction s) (auto simp: esc_bytes_def escape_char_def split: option.splits if_splits)

lemma escape_loop_cstr: "escape_loop dst len (cstr s) m = escape_loop dst len s m"
  by (induction s arbitrary: dst len) (auto simp: cstr_def split: option.splits sum.splits)

lemma escape_loop_room:
  "CHR 0x00 \<notin> set s \<Longrightarrow> length pre + 2 * length s < m \<Longrightarrow> 2 * length s < length rest \<Longrightarrow>
   escape_loop (pre @ rest) (length pre) s m =
     Inr (pre @ escaped s @ CHR 0x00 # drop (Suc (length (escaped s))) rest,
          length pre + length (escaped s))"
proof (induction s arbitrary: pre rest)
  case Nil
  then show ?case
    by (simp add: terminate_append drop_Suc)
next
  case (Cons c s)
  from Cons.prems have c: "c \<noteq> CHR 0x00" "length pre < m" "rest \<noteq> []"
    by auto
  show ?case
  proof (cases "escape_char c")
    case None
    have "escape_loop (pre @ rest) (length pre) (c # s) m =
        escape_loop ((pre @ [c]) @ tl rest) (length (pre @ [c])) s m"
      using c None by (simp add: poke_append)
    also have "\<dots> = Inr ((pre @ [c]) @ escaped s @ CHR 0x00 # drop (Suc (length (escaped s))) (tl rest),
        length (pre @ [c]) + length (escaped s))"
      using Cons.prems by (intro Cons.IH) auto
    finally show ?thesis
      using None by (simp add: esc_bytes_def drop_Suc tl_drop)
  next
    case (Some e)
    from Cons.prems have r: "tl rest \<noteq> []" "\<not> m \<le> Suc (length pre)"
      by (cases rest; cases "tl rest"; simp)+
    have p: "poke (pre @ rest) (length pre) (CHR 0x5C) = Inr ((pre @ [CHR 0x5C]) @ tl rest)"
      using c by (simp add: poke_append)
    have q: "poke ((pre @ [CHR 0x5C]) @ tl rest) (Suc (length pre)) e = Inr ((pre @ [CHR 0x5C, e]) @ tl (tl rest))"
      using r poke_append [of "tl rest" "pre @ [CHR 0x5C]" e] by simp
    have "escape_loop (pre @ rest) (length pre) (c # s) m =
        escape_loop ((pre @ [CHR 0x5C, e]) @ tl (tl rest)) (length (pre @ [CHR 0x5C, e])) s m"
      using c r Some by (simp add: p q del: append_assoc)
    also have "\<dots> = Inr ((pre @ [CHR 0x5C, e]) @ escaped s @ CHR 0x00 # drop (Suc (length (escaped s))) (tl (tl rest)),
        length (pre @ [CHR 0x5C, e]) + length (escaped s))"
      using Cons.prems by (intro Cons.IH) auto
    finally show ?thesis
      using Some by (simp add: esc_bytes_def drop_Suc tl_drop)
  qed
qed

lemma BLI_str_escape_room:
  assumes "2 * strlen s + 1 \<le> length d" and "2 * strlen s + 1 \<le> m"
  shows "BLI_str_escape d s m =
     Inr (escaped (cstr s) @ CHR 0x00 # drop (Suc (length (escaped (cstr s)))) d, length (escaped (cstr s)))"
proof -
  have l: "length (cstr s) = strlen s"
    by (simp add: cstr_def strlen_le_length)
  have "escape_loop ([] @ d) (length ([] :: string)) (cstr s) m =
     Inr ([] @ escaped (cstr s) @ CHR 0x00 # drop (Suc (length (escaped (cstr s)))) d,
          length ([] :: string) + length (escaped (cstr s)))"
    using assms by (intro escape_loop_room) (simp_all add: cstr_zero_free l)
  then show ?thesis
    by (simp add: BLI_str_escape_def escape_loop_cstr)
qed


lemma unescape_escape_char: "escape_char c = Some e \<Longrightarrow> unescape_char e = Some c"
  by (auto simp: escape_char_def unescape_char_def split: if_splits)

lemma escape_char_None_backslash: "escape_char c = None \<Longrightarrow> c \<noteq> CHR 0x5C"
  by (auto simp: escape_char_def split: if_splits)

lemma unescape_loop_stop:
  "t = [] \<or> hd t = CHR 0x00 \<or> m \<le> i \<Longrightarrow> unescape_loop d len t i m = terminate d len"
  by (cases t) auto

lemma unescape_loop_escaped:
  "CHR 0x00 \<notin> set s \<Longrightarrow> i + length (escaped s) \<le> m \<Longrightarrow> length s \<le> length rest \<Longrightarrow>
   unescape_loop (pre @ rest) (length pre) (escaped s @ t) i m =
     unescape_loop (pre @ s @ drop (length s) rest) (length pre + length s) t (i + length (escaped s)) m"
proof (induction s arbitrary: pre rest i)
  case Nil
  then show ?case by simp
next
  case (Cons c s)
  from Cons.prems have c: "c \<noteq> CHR 0x00" "rest \<noteq> []"
    by auto
  have ih: "unescape_loop ((pre @ [c]) @ tl rest) (length (pre @ [c])) (escaped s @ t) j m =
       unescape_loop ((pre @ [c]) @ s @ drop (length s) (tl rest)) (length (pre @ [c]) + length s) t
         (j + length (escaped s)) m"
    if "j + length (escaped s) \<le> m" for j
    using Cons.prems that by (intro Cons.IH) auto
  show ?case
  proof (cases "escape_char c")
    case None
    from Cons.prems None have i: "i < m"
      by (simp add: esc_bytes_def)
    have "unescape_loop (pre @ rest) (length pre) (escaped (c # s) @ t) i m =
        unescape_loop ((pre @ [c]) @ tl rest) (length (pre @ [c])) (escaped s @ t) (i + 1) m"
      using c i None escape_char_None_backslash [OF None] by (simp add: esc_bytes_def poke_append)
    also have "\<dots> = unescape_loop ((pre @ [c]) @ s @ drop (length s) (tl rest))
        (length (pre @ [c]) + length s) t (i + 1 + length (escaped s)) m"
      using Cons.prems None by (intro ih) (simp add: esc_bytes_def)
    finally show ?thesis
      using None by (simp add: esc_bytes_def drop_Suc tl_drop)
  next
    case (Some e)
    from Cons.prems Some have i: "i < m"
      by (simp add: esc_bytes_def)
    have "unescape_loop (pre @ rest) (length pre) (escaped (c # s) @ t) i m =
        unescape_loop ((pre @ [c]) @ tl rest) (length (pre @ [c])) (escaped s @ t) (i + 2) m"
      using c i Some unescape_escape_char [OF Some]
      by (simp add: esc_bytes_def poke_append peek_def)
    also have "\<dots> = unescape_loop ((pre @ [c]) @ s @ drop (length s) (tl rest))
        (length (pre @ [c]) + length s) t (i + 2 + length (escaped s)) m"
      using Cons.prems Some by (intro ih) (simp add: esc_bytes_def)
    finally show ?thesis
      using Some by (simp add: esc_bytes_def drop_Suc tl_drop)
  qed
qed

lemma strlen_append_zero: "CHR 0x00 \<notin> set s \<Longrightarrow> strlen (s @ CHR 0x00 # t) = length s"
  by (simp add: strlen_append_zero_free)

lemma cstr_append_zero: "CHR 0x00 \<notin> set s \<Longrightarrow> cstr (s @ CHR 0x00 # t) = s"
  by (simp add: cstr_def strlen_append_zero)

lemma length_cstr: "length (cstr s) = strlen s"
  by (simp add: cstr_def strlen_le_length)

lemma BLI_str_unescape_escaped:
  assumes "CHR 0x00 \<notin> set s" and "length s < length d" and "length (escaped s) \<le> m"
  shows "BLI_str_unescape d (escaped s @ CHR 0x00 # t) m = Inr (s @ CHR 0x00 # drop (Suc (length s)) d, length s)"
proof -
  have "unescape_loop ([] @ d) (length ([] :: string)) (escaped s @ CHR 0x00 # t) 0 m =
      unescape_loop ([] @ s @ drop (length s) d) (length ([] :: string) + length s) (CHR 0x00 # t)
        (0 + length (escaped s)) m"
    using assms by (intro unescape_loop_escaped) auto
  also have "\<dots> = terminate (s @ drop (length s) d) (length s)"
    by simp
  also have "\<dots> = Inr (s @ CHR 0x00 # drop (Suc (length s)) d, length s)"
    using assms(2) by (simp add: terminate_append drop_Suc tl_drop)
  finally show ?thesis
    by (simp add: BLI_str_unescape_def)
qed

text \<open>
  C3. When the destination of \<^verbatim>\<open>BLI_str_escape\<close> has at least \<^verbatim>\<open>2 * strlen(s) + 1\<close>
  bytes (and \<^verbatim>\<open>dst_maxncpy\<close> allows as many), escaping \<open>s\<close> succeeds, and unescaping its
  result into any destination of at least \<^verbatim>\<open>strlen(escape(s)) + 1\<close> bytes, with a scan
  limit that covers the escaped text, yields \<open>s\<close> exactly.
\<close>

theorem BLI_str_escape_unescape_roundtrip:
  assumes "2 * strlen s + 1 \<le> length d1" and "2 * strlen s + 1 \<le> m1"
  shows "\<exists>d1' n. BLI_str_escape d1 s m1 = Inr (d1', n) \<and> strlen d1' = n
     \<and> (\<forall>d2 m2. n + 1 \<le> length d2 \<longrightarrow> n \<le> m2 \<longrightarrow>
           (\<exists>d2'. BLI_str_unescape d2 d1' m2 = Inr (d2', strlen s) \<and> cstr d2' = cstr s))"
proof -
  define e where "e = escaped (cstr s)"
  define d1' where "d1' = e @ CHR 0x00 # drop (Suc (length e)) d1"
  have z: "CHR 0x00 \<notin> set (cstr s)" "CHR 0x00 \<notin> set e"
    by (simp_all add: e_def cstr_zero_free escaped_zero_free)
  have esc: "BLI_str_escape d1 s m1 = Inr (d1', length e)"
    using BLI_str_escape_room [OF assms] by (simp add: d1'_def e_def)
  have len: "strlen d1' = length e"
    using z by (simp add: d1'_def strlen_append_zero)
  have "\<exists>d2'. BLI_str_unescape d2 d1' m2 = Inr (d2', strlen s) \<and> cstr d2' = cstr s"
    if "length e + 1 \<le> length d2" and "length e \<le> m2" for d2 m2
  proof -
    have "length (cstr s) < length d2"
      using that(1) length_escaped_ge [of "cstr s"] by (simp add: e_def)
    then have "BLI_str_unescape d2 d1' m2 =
        Inr (cstr s @ CHR 0x00 # drop (Suc (length (cstr s))) d2, length (cstr s))"
      unfolding d1'_def e_def using z(1) that(2) by (intro BLI_str_unescape_escaped) (simp_all add: e_def)
    then show ?thesis
      using z(1) by (simp add: length_cstr cstr_append_zero)
  qed
  with esc len show ?thesis
    by blast
qed


theorem BLI_str_escape_unescape_roundtrip_witness:
  "2 * strlen [CHR ''a'', CHR 0x22, CHR 0x09, CHR 0x5C] + 1 \<le> length ''?????????''
   \<and> 2 * strlen [CHR ''a'', CHR 0x22, CHR 0x09, CHR 0x5C] + 1 \<le> (9::nat)
   \<and> BLI_str_escape ''?????????'' [CHR ''a'', CHR 0x22, CHR 0x09, CHR 0x5C] 9 =
        Inr ([CHR ''a'', CHR 0x5C, CHR 0x22, CHR 0x5C, CHR ''t'', CHR 0x5C, CHR 0x5C, CHR 0x00, CHR ''?''], 7)
   \<and> (7::nat) + 1 \<le> length ''????????''
   \<and> BLI_str_unescape ''????????''
         [CHR ''a'', CHR 0x5C, CHR 0x22, CHR 0x5C, CHR ''t'', CHR 0x5C, CHR 0x5C, CHR 0x00, CHR ''?''] 7 =
        Inr ([CHR ''a'', CHR 0x22, CHR 0x09, CHR 0x5C, CHR 0x00, CHR ''?'', CHR ''?'', CHR ''?''], 4)
   \<and> cstr [CHR ''a'', CHR 0x22, CHR 0x09, CHR 0x5C, CHR 0x00, CHR ''?'', CHR ''?'', CHR ''?''] =
        cstr [CHR ''a'', CHR 0x22, CHR 0x09, CHR 0x5C]"
proof -
  let ?s = "[CHR ''a'', CHR 0x22, CHR 0x09, CHR 0x5C]"
  let ?e = "[CHR ''a'', CHR 0x5C, CHR 0x22, CHR 0x5C, CHR ''t'', CHR 0x5C, CHR 0x5C, CHR 0x00, CHR ''?'']"
  let ?r = "[CHR ''a'', CHR 0x22, CHR 0x09, CHR 0x5C, CHR 0x00, CHR ''?'', CHR ''?'', CHR ''?'']"
  have h: "2 * strlen ?s + 1 \<le> length ''?????????''" "2 * strlen ?s + 1 \<le> (9::nat)"
    by simp_all
  have e: "BLI_str_escape ''?????????'' ?s 9 = Inr (?e, 7)"
    by code_simp
  have u: "BLI_str_unescape ''????????'' ?e 7 = Inr (?r, 4)"
    by code_simp
  have l: "(7::nat) + 1 \<le> length ''????????''"
    by simp
  from BLI_str_escape_unescape_roundtrip [OF h] e
  have "\<exists>d2'. BLI_str_unescape ''????????'' ?e 7 = Inr (d2', strlen ?s) \<and> cstr d2' = cstr ?s"
    using l by auto
  with u have "cstr ?r = cstr ?s"
    by auto
  with h e u l show ?thesis
    by blast
qed

text \<open>
  C2. The property: for every source and every \<^verbatim>\<open>dst_maxncpy \<ge> 1\<close>, \<^verbatim>\<open>BLI_str_escape\<close>
  writes at most \<^verbatim>\<open>dst_maxncpy\<close> bytes, the terminating zero byte among them. The code
  does not keep that bound. With \<^verbatim>\<open>dst_maxncpy = 1\<close> and the source \<^verbatim>\<open>"a"\<close> the loop
  stores the byte at index 0 and the terminator at index 1: in a destination of one byte
  this is a write out of bounds, and in a destination of two bytes both are written
  although the capacity given is one.
\<close>

theorem BLI_str_escape_overflow:
  "BLI_str_escape ''?'' ''a'' 1 = Inl OutOfBounds
   \<and> BLI_str_escape ''??'' ''a'' 1 = Inr ([CHR ''a'', CHR 0x00], 1)"
  by (simp add: BLI_str_escape_def escape_char_def poke_def terminate_def)


section \<open>Quoted substring: the claim\<close>

lemma starts_with_cstr: "starts_with (cstr p @ x) p"
  by (induction p) (auto simp: cstr_def)

lemma strstr_at_start: "strstr (cstr p @ x) p = Some 0"
  using starts_with_cstr [of p x] by (cases "cstr p @ x") auto

lemma esc_bytes_cases:
  "c \<noteq> CHR 0x00 \<Longrightarrow>
   (esc_bytes c = [c] \<and> c \<noteq> CHR 0x22 \<and> c \<noteq> CHR 0x5C) \<or> (\<exists>e. esc_bytes c = [CHR 0x5C, e] \<and> e \<noteq> CHR 0x00)"
  by (auto simp: esc_bytes_def escape_char_def)

lemma find_quote_loop_escaped:
  "CHR 0x00 \<notin> set s \<Longrightarrow>
   find_quote_loop (escaped s @ t) False = map_option (\<lambda>k. length (escaped s) + k) (find_quote_loop t False)"
proof (induction s)
  case Nil
  then show ?case by (simp add: option.map_ident)
next
  case (Cons c s)
  then have ih: "find_quote_loop (escaped s @ t) False =
      map_option (\<lambda>k. length (escaped s) + k) (find_quote_loop t False)"
    by simp
  from Cons.prems have nz: "c \<noteq> CHR 0x00" by auto
  from esc_bytes_cases [OF nz] nz show ?case
    by (auto simp: ih option.map_comp comp_def)
qed

lemma BLI_str_escape_find_quote_escaped:
  "CHR 0x00 \<notin> set s \<Longrightarrow> BLI_str_escape_find_quote (escaped s @ CHR 0x22 # t) = Some (length (escaped s))"
  by (simp add: BLI_str_escape_find_quote_def find_quote_loop_escaped)

lemma BLI_str_unescape_escaped_limit:
  assumes "CHR 0x00 \<notin> set s" and "length s < length d"
  shows "BLI_str_unescape d (escaped s @ t) (length (escaped s)) =
     Inr (s @ CHR 0x00 # drop (Suc (length s)) d, length s)"
proof -
  have "unescape_loop ([] @ d) (length ([] :: string)) (escaped s @ t) 0 (length (escaped s)) =
      unescape_loop ([] @ s @ drop (length s) d) (length ([] :: string) + length s) t
        (0 + length (escaped s)) (length (escaped s))"
    using assms by (intro unescape_loop_escaped) auto
  also have "\<dots> = terminate (s @ drop (length s) d) (length s)"
    by (simp add: unescape_loop_stop)
  also have "\<dots> = Inr (s @ CHR 0x00 # drop (Suc (length s)) d, length s)"
    using assms(2) by (simp add: terminate_append drop_Suc tl_drop)
  finally show ?thesis
    by (simp add: BLI_str_unescape_def)
qed

text \<open>
  C4. Let \<open>cstr d'\<close> be the text that \<^verbatim>\<open>BLI_str_escape\<close> produces for \<open>s\<close> in a destination
  that is large enough. For every prefix \<open>p\<close> and any text \<open>t\<close> behind the closing quote,
  \<^verbatim>\<open>BLI_str_quoted_substrN\<close> applied to \<open>p\<close>, a double quote, the escaped text, a double
  quote and \<open>t\<close>, with the prefix \<open>p\<close>, returns a fresh block that holds \<open>s\<close> and its
  terminator and nothing else. No condition on \<open>p\<close> or \<open>s\<close> is needed: the string starts
  with \<open>p\<close>, so the first occurrence of \<open>p\<close> is at its start, and every quote inside the
  escaped text follows an unpaired backslash.
\<close>

theorem BLI_str_quoted_substrN_roundtrip:
  assumes "2 * strlen s + 1 \<le> length d" and "2 * strlen s + 1 \<le> m"
    and "BLI_str_escape d s m = Inr (d', n)"
  shows "BLI_str_quoted_substrN junk (cstr p @ CHR 0x22 # cstr d' @ CHR 0x22 # t) p =
     Inr (Some (cstr s @ [CHR 0x00]))"
proof -
  define u where "u = cstr s"
  define e where "e = escaped u"
  have z: "CHR 0x00 \<notin> set u" "CHR 0x00 \<notin> set e"
    by (simp_all add: e_def u_def cstr_zero_free escaped_zero_free)
  have d': "cstr d' = e"
    using BLI_str_escape_room [OF assms(1,2)] assms(3) z by (auto simp: e_def u_def cstr_append_zero)
  define str where "str = cstr p @ CHR 0x22 # e @ CHR 0x22 # t"
  have 1: "strstr str p = Some 0"
    unfolding str_def by (rule strstr_at_start)
  have 2: "\<not> length str < Suc (strlen p)" "drop (Suc (strlen p)) str = e @ CHR 0x22 # t"
    unfolding str_def by (simp_all add: length_cstr)
  have 3: "BLI_str_escape_find_quote (e @ CHR 0x22 # t) = Some (length e)"
    unfolding e_def using z(1) by (rule BLI_str_escape_find_quote_escaped)
  define r where "r = MEM_mallocN junk (Suc (length e))"
  have r: "length r = Suc (length e)"
    by (simp add: r_def MEM_mallocN_def)
  have u: "length u \<le> length e"
    unfolding e_def by (rule length_escaped_ge)
  have 4: "BLI_str_unescape r (e @ CHR 0x22 # t) (length e) =
      Inr (u @ CHR 0x00 # drop (Suc (length u)) r, length u)"
    unfolding e_def using z(1) u r by (intro BLI_str_unescape_escaped_limit) (simp_all add: e_def)
  have 5: "MEM_reallocN junk (u @ CHR 0x00 # x) (Suc (length u)) = u @ [CHR 0x00]" for x
    by (simp add: MEM_reallocN_def)
  have "BLI_str_quoted_substrN junk str p = Inr (Some (u @ [CHR 0x00]))"
    by (simp add: BLI_str_quoted_substrN_def 1 2 3 r_def [symmetric] 4 5 r)
  then show ?thesis
    by (simp add: str_def d' u_def)
qed

theorem BLI_str_quoted_substrN_roundtrip_witness:
  "2 * strlen [CHR ''a'', CHR 0x22, CHR ''b''] + 1 \<le> length ''???????''
   \<and> 2 * strlen [CHR ''a'', CHR 0x22, CHR ''b''] + 1 \<le> (7::nat)
   \<and> BLI_str_escape ''???????'' [CHR ''a'', CHR 0x22, CHR ''b''] 7 =
        Inr ([CHR ''a'', CHR 0x5C, CHR 0x22, CHR ''b'', CHR 0x00, CHR ''?'', CHR ''?''], 4)
   \<and> BLI_str_quoted_substrN (\<lambda>i. CHR ''?'')
        (''pose['' @ CHR 0x22 # [CHR ''a'', CHR 0x5C, CHR 0x22, CHR ''b''] @ CHR 0x22 # '']'') ''pose['' =
        Inr (Some [CHR ''a'', CHR 0x22, CHR ''b'', CHR 0x00])"
proof -
  let ?s = "[CHR ''a'', CHR 0x22, CHR ''b'']"
  have h: "2 * strlen ?s + 1 \<le> length ''???????''" "2 * strlen ?s + 1 \<le> (7::nat)"
    by simp_all
  have e: "BLI_str_escape ''???????'' ?s 7 =
      Inr ([CHR ''a'', CHR 0x5C, CHR 0x22, CHR ''b'', CHR 0x00, CHR ''?'', CHR ''?''], 4)"
    by code_simp
  from BLI_str_quoted_substrN_roundtrip [OF h e, of "\<lambda>i. CHR ''?''" "''pose[''" "'']''"]
  have "BLI_str_quoted_substrN (\<lambda>i. CHR ''?'')
        (''pose['' @ CHR 0x22 # [CHR ''a'', CHR 0x5C, CHR 0x22, CHR ''b''] @ CHR 0x22 # '']'') ''pose['' =
        Inr (Some [CHR ''a'', CHR 0x22, CHR ''b'', CHR 0x00])"
    by (simp add: cstr_def)
  with h e show ?thesis
    by blast
qed

section \<open>Natural comparison: the loop\<close>

lemma left_number_strcmp_fst:
  "fst (left_number_strcmp s1 s2 t) = fst (left_number_strcmp s1 s2 t0)"
  by (simp add: left_number_strcmp_def Let_def split: sum.splits)


lemma isdigit_zero [simp]: "\<not> isdigit (CHR 0x00)"
  by (simp add: isdigit_def)

lemma digit_run_eq:
  "digit_run p1 p2 k =
     (if length (takeWhile isdigit p2) < length (takeWhile isdigit p1) then Inl 1
      else if length (takeWhile isdigit p1) < length (takeWhile isdigit p2) then Inl (- 1)
      else Inr (k + length (takeWhile isdigit p1)))"
  by (induction p1 p2 k rule: digit_run.induct) (auto simp: peek_def split: list.splits)







lemma left_number_strcmp_digits:
  "fst (left_number_strcmp s1 s2 t) =
     (if length (takeWhile isdigit (skip_zeros s2)) < length (takeWhile isdigit (skip_zeros s1)) then 1
      else if length (takeWhile isdigit (skip_zeros s1)) < length (takeWhile isdigit (skip_zeros s2)) then - 1
      else strncmp (skip_zeros s1) (skip_zeros s2) (length (takeWhile isdigit (skip_zeros s1))))"
  by (simp add: left_number_strcmp_def Let_def digit_run_eq)

lemma strncmp_same: "strncmp p p n = 0"
  by (induction n arbitrary: p) auto

lemma isdigit_char_0 [simp]: "isdigit (CHR ''0'')"
  by (simp add: isdigit_def)

lemma numzero_padded: "numzero (replicate k (CHR ''0'') @ ds) = k + numzero ds"
  by (induction k) (simp_all add: numzero_def)

lemma skip_zeros_padded: "skip_zeros (replicate k (CHR ''0'') @ ds) = skip_zeros ds"
  by (induction k) (simp_all add: skip_zeros_def)

lemma left_number_strcmp_padded:
  "k1 \<noteq> k2 \<Longrightarrow>
   left_number_strcmp (replicate k1 (CHR ''0'') @ ds) (replicate k2 (CHR ''0'') @ ds) 0 =
     (0, if k2 < k1 then 1 else - 1)"
  by (auto simp: left_number_strcmp_def Let_def numzero_padded skip_zeros_padded digit_run_eq strncmp_same)

lemma dropWhile_all: "list_all P xs \<Longrightarrow> dropWhile P (tl xs) = []"
  by (cases xs) (auto simp: list_all_iff)

lemma natural_loop_padded:
  assumes "list_all isdigit ds" and "k1 \<noteq> k2"
    and "replicate k1 (CHR ''0'') @ ds \<noteq> []" and "replicate k2 (CHR ''0'') @ ds \<noteq> []"
  shows "natural_loop (replicate k1 (CHR ''0'') @ ds) (replicate k2 (CHR ''0'') @ ds) 0 =
     Inr (if k2 < k1 then 1 else - 1)"
proof -
  have a: "list_all isdigit (replicate k (CHR ''0'') @ ds)" for k
    using assms(1) by (auto simp: list_all_iff)
  have h: "isdigit (peek (replicate k (CHR ''0'') @ ds))" if "replicate k (CHR ''0'') @ ds \<noteq> []" for k
    using a [of k] that by (cases "replicate k (CHR ''0'') @ ds") (auto simp: peek_def)
  have "digit_step (replicate k1 (CHR ''0'') @ ds) (replicate k2 (CHR ''0'') @ ds) 0 =
      Inr ([], [], if k2 < k1 then 1 else - 1)"
    using h [OF assms(3)] h [OF assms(4)] dropWhile_all [OF a [of k1]] dropWhile_all [OF a [of k2]]
    by (simp add: digit_step_def left_number_strcmp_padded [OF assms(2)])
  then show ?thesis
    by (subst natural_loop.simps) (simp add: peek_def)
qed

lemma BLI_strcasecmp_natural_padded:
  assumes "list_all isdigit ds" and "k1 \<noteq> k2"
    and "replicate k1 (CHR ''0'') @ ds \<noteq> []" and "replicate k2 (CHR ''0'') @ ds \<noteq> []"
  shows "BLI_strcasecmp_natural (replicate k1 (CHR ''0'') @ ds) (replicate k2 (CHR ''0'') @ ds) =
     (if k2 < k1 then 1 else - 1)"
  by (simp add: BLI_strcasecmp_natural_def natural_loop_padded [OF assms])

lemma tolower_zero [simp]: "tolower (CHR 0x00) = CHR 0x00"
  by (simp add: tolower_def)

lemma tolower_dot [simp]: "tolower (CHR ''.'') = CHR ''.''"
  by (simp add: tolower_def)

lemma isdigit_dot [simp]: "\<not> isdigit (CHR ''.'')"
  by (simp add: isdigit_def)

lemma natural_loop_dot:
  assumes "c \<noteq> CHR 0x00" and "tolower c \<noteq> CHR ''.''"
  shows "natural_loop (CHR ''.'' # r1) (c # r2) t = Inl (- 1)"
    and "natural_loop (c # r2) (CHR ''.'' # r1) t = Inl 1"
  using assms by (simp_all add: natural_loop.simps [of "CHR ''.'' # r1"] natural_loop.simps [of "c # r2"]
      digit_step_def peek_def char_step_def Let_def)

lemma natural_loop_same_letter:
  assumes "a \<noteq> CHR 0x00" and "b \<noteq> CHR 0x00" and "\<not> (isdigit a \<and> isdigit b)" and "tolower a = tolower b"
  shows "natural_loop (a # r1) (b # r2) t = natural_loop r1 r2 t"
  using assms by (subst natural_loop.simps) (auto simp add: digit_step_def peek_def char_step_def Let_def)

section \<open>Replacing a substring: the claim\<close>

lemma cstr_Nil [simp]: "cstr [] = []"
  by (simp add: cstr_def)

lemma cstr_Cons: "cstr (c # s) = (if c = CHR 0x00 then [] else c # cstr s)"
  by (simp add: cstr_def)

lemma starts_with_iff: "starts_with h needle \<longleftrightarrow> take (strlen needle) (cstr h) = cstr needle"
proof (induction needle arbitrary: h)
  case Nil
  then show ?case by simp
next
  case (Cons c needle)
  then show ?case
    by (cases h) (auto simp: cstr_Cons)
qed

lemma cstr_drop: "n \<le> strlen s \<Longrightarrow> cstr (drop n s) = drop n (cstr s)"
proof (induction s arbitrary: n)
  case Nil
  then show ?case by simp
next
  case (Cons c s)
  then show ?case
    by (cases n) (auto simp: cstr_Cons split: if_splits)
qed

lemma strstr_in_string: "strstr str needle = Some k \<Longrightarrow> k + strlen needle \<le> strlen str"
proof (induction str arbitrary: k)
  case Nil
  then show ?case
    using length_cstr [of needle] by (auto simp: starts_with_iff split: if_splits)
next
  case (Cons c str)
  show ?case
  proof (cases "starts_with (c # str) needle")
    case True
    then have "length (take (strlen needle) (cstr (c # str))) = length (cstr needle)"
      by (simp add: starts_with_iff)
    then have "strlen needle \<le> strlen (c # str)"
      by (simp only: length_take length_cstr)
    with True Cons.prems show ?thesis by simp
  next
    case False
    with Cons.prems obtain j where "c \<noteq> CHR 0x00" "strstr str needle = Some j" "k = Suc j"
      by (auto split: if_splits)
    with Cons.IH [of j] show ?thesis by simp
  qed
qed

lemma replace_all_ref_strstr:
  assumes "cstr old \<noteq> []"
  shows "replace_all_ref (cstr old) new (cstr str) =
     (case strstr str old of
        None \<Rightarrow> cstr str
      | Some k \<Rightarrow> take k str @ new @ replace_all_ref (cstr old) new (cstr (drop (k + strlen old) str)))"
proof (induction str)
  case Nil
  have "\<not> starts_with [] old"
    using assms by (auto simp: starts_with_iff)
  then show ?case
    using assms by (simp add: replace_all_ref.simps [of _ _ "[]"])
next
  case (Cons c str)
  show ?case
  proof (cases "starts_with (c # str) old")
    case True
    then have t: "take (length (cstr old)) (cstr (c # str)) = cstr old"
      by (simp add: starts_with_iff length_cstr)
    from arg_cong [OF this, of length] have "strlen old \<le> strlen (c # str)"
      by (simp only: length_take length_cstr)
    then have "cstr (drop (strlen old) (c # str)) = drop (length (cstr old)) (cstr (c # str))"
      by (simp only: cstr_drop length_cstr)
    with True t assms show ?thesis
      by (simp add: replace_all_ref.simps [of _ _ "cstr (c # str)"])
  next
    case False
    then have t: "take (length (cstr old)) (cstr (c # str)) \<noteq> cstr old"
      by (simp add: starts_with_iff length_cstr)
    show ?thesis
    proof (cases "c = CHR 0x00")
      case True
      with False assms show ?thesis
        by (simp add: cstr_Cons replace_all_ref.simps [of _ _ "[]"])
    next
      case nz: False
      with t have "replace_all_ref (cstr old) new (cstr (c # str)) =
          c # replace_all_ref (cstr old) new (cstr str)"
        using assms by (simp add: cstr_Cons replace_all_ref.simps [of _ _ "c # cstr str"])
      with False nz Cons.IH show ?thesis
        by (simp add: cstr_Cons split: option.splits)
    qed
  qed
qed

lemma length_replace_all_ref:
  "length new = length old \<Longrightarrow> length (replace_all_ref old new s) = length s"
proof (induction old new s rule: replace_all_ref.induct)
  case (1 old new s)
  show ?case
  proof (cases "old = []")
    case True
    then show ?thesis by (simp add: replace_all_ref.simps [of "[]" new s])
  next
    case ne: False
    show ?thesis
    proof (cases "take (length old) s = old")
      case True
      from arg_cong [OF this, of length] have "length old \<le> length s" by simp
      with True ne "1.IH"(1) "1.prems" show ?thesis
        by (simp add: replace_all_ref.simps [of old new s])
    next
      case False
      with ne have "replace_all_ref old new s =
          (case s of [] \<Rightarrow> [] | c # cs \<Rightarrow> c # replace_all_ref old new cs)"
        by (simp add: replace_all_ref.simps [of old new s])
      with ne False "1.IH"(2) "1.prems" show ?thesis
        by (cases s) simp_all
    qed
  qed
qed

lemma replace_all_ref_zero_free:
  "CHR 0x00 \<notin> set new \<Longrightarrow> CHR 0x00 \<notin> set s \<Longrightarrow> CHR 0x00 \<notin> set (replace_all_ref old new s)"
proof (induction old new s rule: replace_all_ref.induct)
  case (1 old new s)
  show ?case
  proof (cases "old = []")
    case True
    with "1.prems" show ?thesis by (simp add: replace_all_ref.simps [of "[]" new s])
  next
    case ne: False
    show ?thesis
    proof (cases "take (length old) s = old")
      case True
      have "CHR 0x00 \<notin> set (drop (length old) s)"
        using "1.prems"(2) by (auto dest: in_set_dropD)
      with True ne "1.IH"(1) "1.prems" show ?thesis
        by (simp add: replace_all_ref.simps [of old new s])
    next
      case False
      with ne have "replace_all_ref old new s =
          (case s of [] \<Rightarrow> [] | c # cs \<Rightarrow> c # replace_all_ref old new cs)"
        by (simp add: replace_all_ref.simps [of old new s])
      with ne False "1.IH"(2) "1.prems" show ?thesis
        by (cases s) simp_all
    qed
  qed
qed

lemma replace_loop_returns:
  assumes "cstr old \<noteq> []"
  shows "\<exists>ds' rest. replace_loop ds str old new (strlen old) = Some (ds', rest)
     \<and> dynstr_text ds' @ cstr rest = dynstr_text ds @ replace_all_ref (cstr old) (cstr new) (cstr str)"
proof (induction "length str" arbitrary: ds str rule: less_induct)
  case less
  note r = replace_all_ref_strstr [OF assms, of "cstr new" str]
  show ?case
  proof (cases "strstr str old")
    case None
    then show ?thesis
      using r by (simp add: replace_loop.simps [of ds str])
  next
    case (Some k)
    define ds1 where "ds1 = Some (dynstr_text ds @ take k str @ cstr new)"
    define str1 where "str1 = drop (k + strlen old) str"
    from strstr_in_string [OF Some] have k: "k + strlen old \<le> strlen str" .
    moreover have "0 < strlen old"
      using assms by (simp add: cstr_def)
    ultimately have "length str1 < length str"
      using strlen_le_length [of str] by (simp add: str1_def)
    from less [OF this, of ds1] obtain ds' rest where
      l: "replace_loop ds1 str1 old new (strlen old) = Some (ds', rest)"
      and t: "dynstr_text ds' @ cstr rest =
        dynstr_text ds1 @ replace_all_ref (cstr old) (cstr new) (cstr str1)"
      by blast
    have "take k (cstr str) = take k str"
      using k by (simp add: cstr_def min_absorb2)
    then have "Some (BLI_dynstr_append
               (let d = (case ds of None \<Rightarrow> BLI_dynstr_new | Some d \<Rightarrow> d)
                in if k \<noteq> 0 then BLI_dynstr_nappend d str k else d) new) = ds1"
      by (simp add: ds1_def dynstr_text_def BLI_dynstr_append_def BLI_dynstr_nappend_def
          BLI_dynstr_new_def split: option.splits)
    then have "replace_loop ds str old new (strlen old) = replace_loop ds1 str1 old new (strlen old)"
      using Some by (simp add: replace_loop.simps [of ds str] str1_def)
    with l t r Some show ?thesis
      by (simp add: ds1_def dynstr_text_def str1_def)
  qed
qed

lemma BLI_strdup_result: "BLI_strdup junk s = Inr (cstr s @ [CHR 0x00])"
proof -
  define n where "n = strlen s"
  define b where "b = MEM_mallocN junk (n + 1)"
  have b: "length b = Suc n"
    by (simp add: b_def MEM_mallocN_def)
  have n: "n \<le> length s"
    by (simp add: n_def strlen_le_length)
  have m: "memcpy b s n = Inr (take n s @ drop n b)"
    using b n by (simp add: memcpy_def)
  have "poke (take n s @ drop n b) (length (take n s)) (CHR 0x00) = Inr (take n s @ CHR 0x00 # tl (drop n b))"
    using b by (intro poke_append) simp
  then have "poke (take n s @ drop n b) n (CHR 0x00) = Inr (take n s @ [CHR 0x00])"
    using b n by (simp add: min_absorb2 tl_drop)
  with m show ?thesis
    unfolding BLI_strdup_def BLI_strdupn_def Let_def n_def [symmetric] b_def [symmetric]
    by (simp add: cstr_def n_def)
qed

text \<open>
  C8. For every \<^verbatim>\<open>str\<close>, every non-empty \<^verbatim>\<open>substr_old\<close> and every \<^verbatim>\<open>substr_new\<close>,
  \<^verbatim>\<open>BLI_str_replaceN\<close> returns, and the string it returns is the result of the naive
  reference on the three strings; when \<^verbatim>\<open>substr_new\<close> is as long as \<^verbatim>\<open>substr_old\<close>, its
  length is \<^verbatim>\<open>strlen(str)\<close>.
\<close>

theorem BLI_str_replaceN_refines_reference:
  assumes "peek substr_old \<noteq> CHR 0x00"
  shows "BLI_str_replaceN junk str substr_old substr_new =
       Some (Inr (replace_all_ref (cstr substr_old) (cstr substr_new) (cstr str) @ [CHR 0x00]))
     \<and> CHR 0x00 \<notin> set (replace_all_ref (cstr substr_old) (cstr substr_new) (cstr str))
     \<and> (strlen substr_new = strlen substr_old \<longrightarrow>
          length (replace_all_ref (cstr substr_old) (cstr substr_new) (cstr str)) = strlen str)"
proof -
  have ne: "cstr substr_old \<noteq> []"
    using assms by (cases substr_old) (auto simp: peek_def cstr_Cons)
  from replace_loop_returns [OF ne, of None str substr_new] obtain ds' rest where
    l: "replace_loop None str substr_old substr_new (strlen substr_old) = Some (ds', rest)"
    and t: "dynstr_text ds' @ cstr rest =
      replace_all_ref (cstr substr_old) (cstr substr_new) (cstr str)"
    by (auto simp: dynstr_text_def)
  have "BLI_str_replaceN junk str substr_old substr_new = Some (Inr ((dynstr_text ds' @ cstr rest) @ [CHR 0x00]))"
    using l by (cases ds')
      (simp_all add: BLI_str_replaceN_def BLI_strdup_result dynstr_text_def
        BLI_dynstr_get_cstring_def BLI_dynstr_append_def)
  moreover have "length (replace_all_ref (cstr substr_old) (cstr substr_new) (cstr str)) = strlen str"
    if "strlen substr_new = strlen substr_old"
    using length_replace_all_ref [of "cstr substr_new" "cstr substr_old" "cstr str"] that
    by (simp add: length_cstr)
  moreover have "CHR 0x00 \<notin> set (replace_all_ref (cstr substr_old) (cstr substr_new) (cstr str))"
    by (intro replace_all_ref_zero_free cstr_zero_free)
  ultimately show ?thesis
    by (simp add: t)
qed

theorem BLI_str_replaceN_refines_reference_witness:
  "peek ''--'' \<noteq> CHR 0x00 \<and> strlen ''+.'' = strlen ''--''
   \<and> BLI_str_replaceN (\<lambda>i. CHR ''?'') ''a--b---c'' ''--'' ''+.'' = Some (Inr (''a+.b+.-c'' @ [CHR 0x00]))
   \<and> replace_all_ref (cstr ''--'') (cstr ''+.'') (cstr ''a--b---c'') = ''a+.b+.-c''
   \<and> length ''a+.b+.-c'' = strlen ''a--b---c''"
proof -
  have h: "peek ''--'' \<noteq> CHR 0x00"
    by (simp add: peek_def)
  have r: "replace_all_ref (cstr ''--'') (cstr ''+.'') (cstr ''a--b---c'') = ''a+.b+.-c''"
    by code_simp
  from BLI_str_replaceN_refines_reference [OF h, of "\<lambda>i. CHR ''?''" "''a--b---c''" "''+.''"]
  have "BLI_str_replaceN (\<lambda>i. CHR ''?'') ''a--b---c'' ''--'' ''+.'' = Some (Inr (''a+.b+.-c'' @ [CHR 0x00]))"
    by (simp only: r)
  with h r show ?thesis
    by simp
qed

section \<open>Word prefix search: the claim\<close>

lemma tolower_eq_zero [simp]: "tolower x = CHR 0x00 \<longleftrightarrow> x = CHR 0x00"
proof -
  have "char_of (of_char x + (32::nat)) \<noteq> CHR 0x00" if "65 \<le> (of_char x :: nat)" "(of_char x :: nat) \<le> 90"
  proof
    assume "char_of (of_char x + (32::nat)) = CHR 0x00"
    then have "(of_char (char_of (of_char x + (32::nat)) :: char) :: nat) = of_char (CHR 0x00)"
      by simp
    with that show False
      by (simp add: of_char_of)
  qed
  then show ?thesis
    by (auto simp: tolower_def)
qed

lemma char_value_inj: "char_value a = char_value b \<longleftrightarrow> a = b"
proof
  define x y where "x = (of_char a :: nat)" and "y = (of_char b :: nat)"
  assume "char_value a = char_value b"
  then have "(if x < 128 then int x else int x - 256) = (if y < 128 then int y else int y - 256)"
    by (simp only: char_value_def x_def y_def)
  moreover have "x < 256" "y < 256"
    by (simp_all add: x_def y_def)
  ultimately have "x = y"
    by (auto split: if_splits)
  then show "a = b"
    unfolding x_def y_def by (metis char_of_char)
qed simp

lemma peek_Cons [simp]: "peek (c # s) = c"
  by (simp add: peek_def)

lemma peek_Nil [simp]: "peek [] = CHR 0x00"
  by (simp add: peek_def)

lemma BLI_strncasecmp_zero_iff:
  "m \<le> strlen f \<Longrightarrow>
   BLI_strncasecmp s f m = 0 \<longleftrightarrow> m \<le> strlen s \<and> map tolower (take m s) = map tolower (take m f)"
proof (induction m arbitrary: s f)
  case 0
  then show ?case by simp
next
  case (Suc m)
  from Suc.prems obtain b f' where f: "f = b # f'" "b \<noteq> CHR 0x00" "m \<le> strlen f'"
    by (cases f) (auto split: if_splits)
  show ?case
  proof (cases s)
    case Nil
    with f show ?thesis
      by (auto simp: Let_def char_value_inj not_less less_le)
  next
    case (Cons a s')
    show ?thesis
    proof (cases "tolower a = tolower b")
      case True
      with f have "a \<noteq> CHR 0x00"
        by (metis tolower_eq_zero)
      with True f Cons Suc.IH [OF f(3), of s'] show ?thesis
        by (simp add: Let_def)
    next
      case False
      then have "char_value (tolower a) \<noteq> char_value (tolower b)"
        by (simp add: char_value_inj)
      with False f Cons show ?thesis
        by (auto simp: Let_def)
    qed
  qed
qed

lemma strncasestr_scan_None:
  "CHR 0x00 \<notin> set s \<Longrightarrow> strncasestr_scan c f len s = None \<Longrightarrow> \<not> hit c f len (drop j s)"
proof (induction s arbitrary: j)
  case Nil
  then show ?case by (simp add: hit_def)
next
  case (Cons a s)
  then show ?case
    by (cases j) (auto simp: hit_def split: if_splits)
qed

lemma strncasestr_scan_Some:
  "CHR 0x00 \<notin> set s \<Longrightarrow> strncasestr_scan c f len s = Some k \<Longrightarrow>
   hit c f len (drop k s) \<and> (\<forall>j<k. \<not> hit c f len (drop j s))"
proof (induction s arbitrary: k)
  case Nil
  then show ?case by simp
next
  case (Cons a s)
  show ?case
  proof (cases "tolower a = c \<and> (len \<le> 1 \<or> BLI_strncasecmp s f (len - 1) = 0)")
    case True
    with Cons.prems show ?thesis
      by (auto simp: hit_def)
  next
    case False
    with Cons.prems obtain k' where k': "strncasestr_scan c f len s = Some k'" "k = Suc k'"
      by (auto split: if_splits)
    from Cons.IH [OF _ k'(1)] Cons.prems(1)
    have ih: "hit c f len (drop k' s)" "\<And>j. j < k' \<Longrightarrow> \<not> hit c f len (drop j s)"
      by auto
    have "\<not> hit c f len (drop j (a # s))" if "j < k" for j
      using that False ih(2) k'(2) by (cases j) (auto simp: hit_def)
    with ih(1) k'(2) show ?thesis
      by simp
  qed
qed

lemma hit_iff_occurs:
  assumes "CHR 0x00 \<notin> set t" and "1 \<le> len" and "len - 1 \<le> strlen f"
  shows "hit (tolower c0) f len t \<longleftrightarrow>
     len \<le> length t \<and> map tolower (take len t) = map tolower (c0 # take (len - 1) f)"
proof (cases t)
  case Nil
  with assms show ?thesis by (simp add: hit_def)
next
  case (Cons a t')
  obtain m where m: "len = Suc m"
    using assms(2) by (cases len) auto
  have "CHR 0x00 \<notin> set t'"
    using assms(1) Cons by simp
  then have "strlen t' = length t'"
    by (rule strlen_zero_free)
  with assms(3) m have "BLI_strncasecmp t' f m = 0 \<longleftrightarrow>
      m \<le> length t' \<and> map tolower (take m t') = map tolower (take m f)"
    by (simp add: BLI_strncasecmp_zero_iff)
  moreover have "m = 0 \<Longrightarrow> BLI_strncasecmp t' f m = 0"
    by simp
  ultimately show ?thesis
    using Cons m by (auto simp: hit_def)
qed

lemma occurs_at_drop:
  "word \<noteq> [] \<Longrightarrow>
   occurs_at text word p \<longleftrightarrow> length word \<le> length (drop p text)
     \<and> map tolower (take (length word) (drop p text)) = map tolower word"
  by (cases word) (auto simp: occurs_at_def)


lemma needle_split:
  assumes "1 \<le> n" and "n \<le> strlen nd"
  obtains c0 f where "nd = c0 # f" and "c0 \<noteq> CHR 0x00" and "n - 1 \<le> strlen f"
    and "take n nd = c0 # take (n - 1) f" and "length (take n nd) = n"
proof (cases nd)
  case Nil
  with assms show ?thesis by simp
next
  case (Cons c0 f)
  with assms have c: "c0 \<noteq> CHR 0x00" "n - 1 \<le> strlen f"
    by (auto split: if_splits)
  moreover have "take n nd = c0 # take (n - 1) f"
    using assms(1) Cons by (cases n) auto
  moreover have "length (take n nd) = n"
    using assms(2) strlen_le_length [of nd] by simp
  ultimately show ?thesis
    using Cons that by blast
qed

lemma occurs_iff_hit:
  assumes "CHR 0x00 \<notin> set h" and "nd = c0 # f" and "1 \<le> n" and "n - 1 \<le> strlen f"
    and "length (take n nd) = n"
  shows "occurs_at h (take n nd) p \<longleftrightarrow> hit (tolower c0) f n (drop p h)"
proof -
  have z: "CHR 0x00 \<notin> set (drop p h)"
    using assms(1) by (auto dest: in_set_dropD)
  have w: "take n nd = c0 # take (n - 1) f"
    using assms(2,3) by (cases n) auto
  have "occurs_at h (take n nd) p \<longleftrightarrow> n \<le> length (drop p h)
      \<and> map tolower (take n (drop p h)) = map tolower (take n nd)"
    using occurs_at_drop [of "take n nd" h p] assms(5) w by simp
  also have "\<dots> \<longleftrightarrow> hit (tolower c0) f n (drop p h)"
    using hit_iff_occurs [OF z assms(3,4), of c0] by (simp add: w)
  finally show ?thesis .
qed

lemma BLI_strncasestr_first:
  assumes "CHR 0x00 \<notin> set h" and "1 \<le> n" and "n \<le> strlen nd"
  shows "BLI_strncasestr h nd n = None \<Longrightarrow> \<not> occurs_at h (take n nd) p"
    and "BLI_strncasestr h nd n = Some k \<Longrightarrow>
      occurs_at h (take n nd) k \<and> (\<forall>j<k. \<not> occurs_at h (take n nd) j)"
proof -
  from assms(2,3) obtain c0 f where n: "nd = c0 # f" "c0 \<noteq> CHR 0x00" "n - 1 \<le> strlen f"
    "length (take n nd) = n"
    by (rule needle_split)
  note o = occurs_iff_hit [OF assms(1) n(1) assms(2) n(3,4)]
  have s: "BLI_strncasestr h nd n = strncasestr_scan (tolower c0) f n h"
    using n by (simp add: BLI_strncasestr_def)
  show "\<not> occurs_at h (take n nd) p" if "BLI_strncasestr h nd n = None"
    using that strncasestr_scan_None [OF assms(1), of "tolower c0" f n p] by (simp add: s o)
  show "occurs_at h (take n nd) k \<and> (\<forall>j<k. \<not> occurs_at h (take n nd) j)"
    if "BLI_strncasestr h nd n = Some k"
    using that strncasestr_scan_Some [OF assms(1), of "tolower c0" f n k] by (simp add: s o)
qed

lemma occurs_at_shift:
  "word \<noteq> [] \<Longrightarrow> occurs_at (drop d text) word p \<longleftrightarrow> occurs_at text word (p + d)"
  by (cases word) (auto simp: occurs_at_def add.commute)

lemma word_boundary_shift:
  "d \<le> length text \<Longrightarrow> 0 < p \<Longrightarrow> word_boundary (drop d text) p \<longleftrightarrow> word_boundary text (p + d)"
  by (simp add: word_boundary_def add.commute)

lemma has_word_prefix_complete:
  "CHR 0x00 \<notin> set h \<Longrightarrow> 1 \<le> n \<Longrightarrow> n \<le> strlen nd \<Longrightarrow>
   occurs_at h (take n nd) p \<Longrightarrow> word_boundary h p \<Longrightarrow> BLI_string_has_word_prefix h nd n"
proof (induction h nd n arbitrary: p rule: BLI_string_has_word_prefix.induct)
  case (1 h nd n)
  note first = BLI_strncasestr_first [OF "1.prems"(1,2,3)]
  from "1.prems"(2,3) have w: "take n nd \<noteq> []"
    by (cases nd) auto
  show ?case
  proof (cases "BLI_strncasestr h nd n")
    case None
    from first(1) [OF None, of p] "1.prems"(4) show ?thesis by simp
  next
    case (Some k)
    show ?thesis
    proof (cases "k = 0 \<or> h ! (k - 1) = CHR '' '' \<or> ispunct (h ! (k - 1))")
      case True
      with Some show ?thesis
        by (simp add: BLI_string_has_word_prefix.simps [of h nd n])
    next
      case False
      then have "\<not> word_boundary h k"
        by (simp add: word_boundary_def)
      with "1.prems"(5) have "p \<noteq> k" by auto
      moreover from first(2) [OF Some] "1.prems"(4) have "\<not> p < k" by auto
      ultimately have p: "k + 1 \<le> p" by simp
      from "1.prems"(4) have l: "p \<le> length h"
        by (simp add: occurs_at_def)
      have z: "CHR 0x00 \<notin> set (drop (k + 1) h)"
        using "1.prems"(1) by (auto dest: in_set_dropD)
      have o: "occurs_at (drop (k + 1) h) (take n nd) (p - (k + 1))"
        using "1.prems"(4) p by (simp add: occurs_at_shift [OF w])
      have b: "word_boundary (drop (k + 1) h) (p - (k + 1))"
      proof (cases "p = k + 1")
        case True
        then show ?thesis by (simp add: word_boundary_def)
      next
        case False
        with p l "1.prems"(5) show ?thesis
          by (simp add: word_boundary_shift)
      qed
      from "1.IH" [OF Some False z "1.prems"(2,3) o b] Some False show ?thesis
        by (simp add: BLI_string_has_word_prefix.simps [of h nd n])
    qed
  qed
qed

text \<open>
  With the length 0 \<^verbatim>\<open>BLI_strncasestr\<close> takes the branch for \<^verbatim>\<open>len <= 1\<close> and looks for the
  first byte of the needle, so that the empty prefix is not found where that byte is
  missing.
\<close>

lemma BLI_string_has_word_prefix_length_zero:
  "\<not> BLI_string_has_word_prefix ''abc'' ''x'' 0 \<and> word_prefix_spec ''abc'' ''x'' 0"
  by code_simp

text \<open>
  C7. \<^verbatim>\<open>BLI_string_has_word_prefix\<close> is meant to return true exactly when some occurrence,
  without regard to case, of the first \<open>n\<close> bytes of the needle begins at a word boundary
  of the haystack. The code does not: for \<^verbatim>\<open>"xaaa"\<close>, \<^verbatim>\<open>"aa"\<close>, 2 and for \<^verbatim>\<open>"bookkeeper"\<close>,
  \<^verbatim>\<open>"k"\<close>, 1 it returns true although every occurrence follows a letter. The first
  occurrence is found at offset 1 of \<^verbatim>\<open>"xaaa"\<close> and rejected; the recursive call searches
  \<^verbatim>\<open>"aa"\<close>, the text behind \<^verbatim>\<open>match + 1\<close>, finds the needle at its offset 0, and
  \<^verbatim>\<open>match == haystack\<close> accepts it as the start of the string. The two examples of the
  claim come out as it says.
\<close>

theorem BLI_string_has_word_prefix_accepts_behind_rejected:
  "BLI_string_has_word_prefix ''xaaa'' ''aa'' 2 \<and> \<not> word_prefix_spec ''xaaa'' ''aa'' 2
   \<and> BLI_string_has_word_prefix ''bookkeeper'' ''k'' 1 \<and> \<not> word_prefix_spec ''bookkeeper'' ''k'' 1
   \<and> BLI_strncasestr ''xaaa'' ''aa'' 2 = Some 1
   \<and> \<not> word_boundary ''xaaa'' 1
   \<and> BLI_strncasestr (drop (1 + 1) ''xaaa'') ''aa'' 2 = Some 0
   \<and> \<not> word_boundary ''xaaa'' 2
   \<and> BLI_string_has_word_prefix ''the quick, fox'' ''fox'' 3
   \<and> word_prefix_spec ''the quick, fox'' ''fox'' 3
   \<and> \<not> BLI_string_has_word_prefix ''thefox'' ''fox'' 3
   \<and> \<not> word_prefix_spec ''thefox'' ''fox'' 3"
  by code_simp

section \<open>Natural comparison: the claims\<close>


lemma numzero_zeros: "numzero (zeros k @ s) = k + numzero s"
  unfolding zeros_def by (rule numzero_padded)

lemma skip_zeros_zeros: "skip_zeros (zeros k @ s) = skip_zeros s"
  unfolding zeros_def by (rule skip_zeros_padded)

lemma not_digit_not_zero: "\<not> isdigit (peek r) \<Longrightarrow> takeWhile (\<lambda>c. c = CHR ''0'') r = [] \<and> dropWhile (\<lambda>c. c = CHR ''0'') r = r"
  by (cases r) (auto simp: peek_def)

lemma numzero_append: "\<not> isdigit (peek r) \<Longrightarrow> numzero (d @ r) = numzero d"
  by (induction d) (auto simp: numzero_def not_digit_not_zero)

lemma skip_zeros_append: "\<not> isdigit (peek r) \<Longrightarrow> skip_zeros (d @ r) = skip_zeros d @ r"
  by (induction d) (auto simp: skip_zeros_def not_digit_not_zero)

lemma takeWhile_digits: "list_all isdigit e \<Longrightarrow> \<not> isdigit (peek r) \<Longrightarrow> takeWhile isdigit (e @ r) = e"
  by (induction e) (auto simp: peek_def split: list.splits)

lemma dropWhile_digits: "list_all isdigit e \<Longrightarrow> \<not> isdigit (peek r) \<Longrightarrow> dropWhile isdigit (e @ r) = r"
  by (induction e) (auto simp: peek_def split: list.splits)

lemma list_all_skip_zeros: "list_all isdigit d \<Longrightarrow> list_all isdigit (skip_zeros d)"
  by (induction d) (auto simp: skip_zeros_def)

lemma list_all_zeros: "list_all isdigit (zeros k)"
  by (simp add: zeros_def list_all_iff)

lemma strncmp_common: "strncmp (c @ u) (c @ v) (length c) = 0"
  by (induction c) auto

lemma significant_skip: "significant d \<Longrightarrow> skip_zeros d = d"
  by (cases d) (auto simp: significant_def skip_zeros_def)

lemma number_head:
  assumes "list_all isdigit n" and "n \<noteq> []" and "\<not> isdigit (peek r)"
  shows "isdigit (peek (n @ r))" and "dropWhile isdigit (tl (n @ r)) = r"
  using assms by (cases n; auto simp: dropWhile_digits)+

lemma left_number_strcmp_equal_numbers:
  assumes "list_all isdigit d" and "\<not> isdigit (peek r1)" and "\<not> isdigit (peek r2)"
  shows "left_number_strcmp (zeros k1 @ d @ r1) (zeros k2 @ d @ r2) t = (0, tie t k1 k2)"
proof -
  define e where "e = skip_zeros d"
  have e: "list_all isdigit e"
    unfolding e_def using assms(1) by (rule list_all_skip_zeros)
  have s: "skip_zeros (zeros k @ d @ r) = e @ r" if "\<not> isdigit (peek r)" for k r
    using that by (simp add: skip_zeros_zeros skip_zeros_append e_def)
  have n: "numzero (zeros k @ d @ r) = k + numzero d" if "\<not> isdigit (peek r)" for k r
    using that by (simp add: numzero_zeros numzero_append)
  have "digit_run (e @ r1) (e @ r2) 0 = Inr (length e)"
    using assms(2,3) e by (simp add: digit_run_eq takeWhile_digits)
  then show ?thesis
    using assms(2,3) by (simp add: left_number_strcmp_def s n strncmp_common tie_def)
qed

lemma natural_loop_equal_numbers:
  assumes "list_all isdigit d" and "0 < k1 + length d" and "0 < k2 + length d"
    and "\<not> isdigit (peek r1)" and "\<not> isdigit (peek r2)"
  shows "natural_loop (zeros k1 @ d @ r1) (zeros k2 @ d @ r2) t = natural_loop r1 r2 (tie t k1 k2)"
proof -
  have n: "list_all isdigit (zeros k @ d)" for k
    using assms(1) list_all_zeros [of k] by simp
  have ne: "zeros k1 @ d \<noteq> []" "zeros k2 @ d \<noteq> []"
    using assms(2,3) by (auto simp: zeros_def)
  have h1: "isdigit (peek ((zeros k1 @ d) @ r1))" "dropWhile isdigit (tl ((zeros k1 @ d) @ r1)) = r1"
    by (rule number_head [OF n ne(1) assms(4)])+
  have h2: "isdigit (peek ((zeros k2 @ d) @ r2))" "dropWhile isdigit (tl ((zeros k2 @ d) @ r2)) = r2"
    by (rule number_head [OF n ne(2) assms(5)])+
  have "digit_step (zeros k1 @ d @ r1) (zeros k2 @ d @ r2) t = Inr (r1, r2, tie t k1 k2)"
    using h1 h2 by (simp add: digit_step_def left_number_strcmp_equal_numbers [OF assms(1,4,5)])
  moreover have "digit_step r1 r2 (tie t k1 k2) = Inr (r1, r2, tie t k1 k2)"
    using assms(4) by (simp add: digit_step_def)
  ultimately show ?thesis
    by (simp add: natural_loop.simps [of "zeros k1 @ d @ r1"] natural_loop.simps [of r1])
qed

lemma strncmp_first_diff:
  "CHR 0x00 \<notin> set c \<Longrightarrow> x \<noteq> y \<Longrightarrow> length c < n \<Longrightarrow>
   strncmp (c @ x # u) (c @ y # w) n = of_char x - of_char y"
proof (induction c arbitrary: n)
  case Nil
  then show ?case by (cases n) (auto simp: peek_def)
next
  case (Cons a c)
  then show ?case by (cases n) (auto simp: peek_def)
qed

lemma isdigit_not_zero_byte: "list_all isdigit d \<Longrightarrow> CHR 0x00 \<notin> set d"
  by (auto simp: list_all_iff)

lemma left_number_strcmp_numbers:
  assumes "significant d1" and "significant d2" and "\<not> isdigit (peek r1)" and "\<not> isdigit (peek r2)"
  shows "fst (left_number_strcmp (zeros k1 @ d1 @ r1) (zeros k2 @ d2 @ r2) t) =
     (if length d2 < length d1 then 1
      else if length d1 < length d2 then - 1
      else strncmp (d1 @ r1) (d2 @ r2) (length d1))"
proof -
  have s: "skip_zeros (zeros k @ d @ r) = d @ r" "takeWhile isdigit (d @ r) = d"
    if "significant d" "\<not> isdigit (peek r)" for k d r
    using that by (simp_all add: skip_zeros_zeros skip_zeros_append significant_skip takeWhile_digits)
      (simp add: significant_def takeWhile_digits)
  show ?thesis
    by (simp add: left_number_strcmp_digits s [OF assms(1,3)] s [OF assms(2,4)])
qed

lemma natural_loop_number_diff:
  assumes "isdigit (peek s1)" and "isdigit (peek s2)" and "fst (left_number_strcmp s1 s2 t) \<noteq> 0"
  shows "natural_loop s1 s2 t = Inl (fst (left_number_strcmp s1 s2 t))"
  using assms by (cases "left_number_strcmp s1 s2 t") (simp add: natural_loop.simps [of s1 s2 t] digit_step_def)

lemma natural_loop_numbers:
  assumes "significant d1" and "significant d2" and "0 < k1 + length d1" and "0 < k2 + length d2"
    and "\<not> isdigit (peek r1)" and "\<not> isdigit (peek r2)"
  defines "r \<equiv> (if length d2 < length d1 then 1
      else if length d1 < length d2 then - 1
      else strncmp (d1 @ r1) (d2 @ r2) (length d1))"
  assumes "r \<noteq> 0"
  shows "natural_loop (zeros k1 @ d1 @ r1) (zeros k2 @ d2 @ r2) t = Inl r"
proof -
  have n: "list_all isdigit (zeros k @ d)" if "significant d" for k d
    using that list_all_zeros [of k] by (simp add: significant_def)
  have ne: "zeros k1 @ d1 \<noteq> []" "zeros k2 @ d2 \<noteq> []"
    using assms(3,4) by (auto simp: zeros_def)
  have h: "isdigit (peek ((zeros k1 @ d1) @ r1))" "isdigit (peek ((zeros k2 @ d2) @ r2))"
    by (rule number_head(1) [OF n [OF assms(1)] ne(1) assms(5)])
      (rule number_head(1) [OF n [OF assms(2)] ne(2) assms(6)])
  have f: "fst (left_number_strcmp (zeros k1 @ d1 @ r1) (zeros k2 @ d2 @ r2) t) = r"
    unfolding r_def by (rule left_number_strcmp_numbers [OF assms(1,2,5,6)])
  from natural_loop_number_diff [of "zeros k1 @ d1 @ r1" "zeros k2 @ d2 @ r2" t] h f \<open>r \<noteq> 0\<close>
  show ?thesis by simp
qed

lemma natural_loop_differs_at:
  assumes "differs_at u1 u2 r"
  shows "natural_loop u1 u2 t = Inl r"
proof (cases "isdigit (peek u1) \<and> isdigit (peek u2)")
  case True
  with assms have "r \<noteq> 0" "fst (left_number_strcmp u1 u2 t) = r"
    using left_number_strcmp_fst [of u1 u2 t 0] by (simp_all add: differs_at_def)
  with True natural_loop_number_diff [of u1 u2 t] show ?thesis by simp
next
  case False
  then have "digit_step u1 u2 t = Inr (u1, u2, t)"
    by (auto simp: digit_step_def)
  with False assms show ?thesis
    by (simp add: differs_at_def natural_loop.simps [of u1 u2 t])
qed

lemma decimal_snoc: "decimal (n @ [c]) = 10 * decimal n + digit_val c"
  by (simp add: decimal_def)

lemma decimal_Nil [simp]: "decimal [] = 0"
  by (simp add: decimal_def)

lemma digit_val_le: "isdigit c \<Longrightarrow> digit_val c \<le> 9"
  by (auto simp: isdigit_def digit_val_def)

lemma decimal_less: "list_all isdigit n \<Longrightarrow> decimal n < 10 ^ length n"
proof (induction n rule: rev_induct)
  case Nil
  then show ?case by simp
next
  case (snoc c n)
  then have "decimal n < 10 ^ length n" "digit_val c \<le> 9"
    by (simp_all add: digit_val_le)
  then show ?case
    by (simp add: decimal_snoc)
qed

lemma decimal_append:
  "decimal (m @ n) = decimal m * 10 ^ length n + decimal n"
proof (induction n rule: rev_induct)
  case Nil
  then show ?case by simp
next
  case (snoc c n)
  have "decimal (m @ n @ [c]) = 10 * decimal (m @ n) + digit_val c"
    using decimal_snoc [of "m @ n" c] by simp
  with snoc show ?case
    by (simp add: decimal_snoc algebra_simps)
qed

lemma decimal_Cons: "decimal (c # n) = digit_val c * 10 ^ length n + decimal n"
  using decimal_append [of "[c]" n] decimal_snoc [of "[]" c] by simp

lemma decimal_zeros: "decimal (zeros k @ n) = decimal n"
proof -
  have "decimal (zeros k) = 0"
    by (induction k) (simp_all add: zeros_def decimal_Cons digit_val_def)
  then show ?thesis
    by (simp add: decimal_append)
qed

lemma decimal_ge:
  assumes "significant d" and "d \<noteq> []"
  shows "10 ^ (length d - 1) \<le> decimal d"
proof -
  from assms obtain x u where d: "d = x # u" "isdigit x" "x \<noteq> CHR ''0''"
    by (cases d) (auto simp: significant_def)
  have "(of_char x :: nat) \<noteq> 48"
  proof
    assume "(of_char x :: nat) = 48"
    then have "(of_char x :: nat) = of_char (CHR ''0'')"
      by simp
    then have "x = CHR ''0''"
      by (simp only: of_char_eq_iff)
    with d(3) show False ..
  qed
  with d have "1 \<le> digit_val x"
    by (auto simp: isdigit_def digit_val_def)
  then have "(10::nat) ^ length u \<le> digit_val x * 10 ^ length u"
    by simp
  then have "10 ^ length u \<le> digit_val x * 10 ^ length u + decimal u"
    by (rule trans_le_add1)
  then show ?thesis
    by (simp add: d(1) decimal_Cons)
qed

lemma decimal_first_diff:
  assumes "list_all isdigit u" and "list_all isdigit w" and "length u = length w"
    and "isdigit x" and "(of_char x :: nat) < of_char y"
  shows "decimal (c @ x # u) < decimal (c @ y # w)"
proof -
  have v: "digit_val x < digit_val y"
    using assms(4,5) by (auto simp: isdigit_def digit_val_def)
  have "decimal (x # u) < (digit_val x + 1) * 10 ^ length u"
    using decimal_less [OF assms(1)] by (simp add: decimal_Cons)
  also have "\<dots> \<le> digit_val y * 10 ^ length u"
    using v by (intro mult_le_mono1) simp
  also have "\<dots> \<le> decimal (y # w)"
    using assms(3) by (simp add: decimal_Cons)
  finally show ?thesis
    using assms(3) by (simp add: decimal_append [of c])
qed


lemma number_split:
  assumes "list_all isdigit n"
  obtains k d where "n = zeros k @ d" and "significant d"
proof
  show "n = zeros (numzero n) @ skip_zeros n"
  proof (induction n)
    case Nil
    show ?case by (simp add: zeros_def numzero_def skip_zeros_def)
  next
    case (Cons a n)
    then show ?case by (simp add: zeros_def numzero_def skip_zeros_def)
  qed
  show "significant (skip_zeros n)"
    using assms by (induction n) (auto simp: significant_def skip_zeros_def)
qed

lemma of_char_int_less: "(of_char x :: int) < of_char y \<longleftrightarrow> (of_char x :: nat) < of_char y"
  by (simp only: of_nat_of_char [symmetric, where ?'a = int] of_nat_less_iff)

lemma numbers_order:
  fixes r1 r2 :: string
  assumes "significant d1" and "significant d2"
  defines "r \<equiv> (if length d2 < length d1 then 1
      else if length d1 < length d2 then - 1
      else strncmp (d1 @ r1) (d2 @ r2) (length d1))"
  shows "(decimal d1 < decimal d2 \<longrightarrow> r < 0) \<and> (decimal d2 < decimal d1 \<longrightarrow> 0 < r)"
proof -
  have a: "list_all isdigit d1" "list_all isdigit d2"
    using assms(1,2) by (simp_all add: significant_def)
  have longer: "decimal e < decimal d" if "significant d" "list_all isdigit e" "length e < length d" for d e
  proof -
    from that(3) have "d \<noteq> []" by auto
    have "decimal e < 10 ^ length e"
      using that(2) by (rule decimal_less)
    also have "\<dots> \<le> (10::nat) ^ (length d - 1)"
      using that(3) by (intro power_increasing) auto
    also have "\<dots> \<le> decimal d"
      using that(1) \<open>d \<noteq> []\<close> by (rule decimal_ge)
    finally show ?thesis .
  qed
  consider "length d2 < length d1" | "length d1 < length d2" | "d1 = d2"
    | "length d1 = length d2" "d1 \<noteq> d2"
    by fastforce
  then show ?thesis
  proof cases
    case 1
    with longer [OF assms(1) a(2)] show ?thesis by (simp add: r_def)
  next
    case 2
    with longer [OF assms(2) a(1)] show ?thesis by (simp add: r_def)
  next
    case 3
    then show ?thesis by simp
  next
    case 4
    from same_length_different [OF 4(2,1)] obtain c x u y w where
      d: "x \<noteq> y" "d1 = c @ [x] @ u" "d2 = c @ [y] @ w"
      by blast
    with 4(1) a have l: "length u = length w" "list_all isdigit u" "list_all isdigit w"
      "isdigit x" "isdigit y" "list_all isdigit c" "length c < length d1"
      by (auto simp: list_all_iff)
    have r: "r = of_char x - of_char y"
      using 4(1) d isdigit_not_zero_byte [OF l(6)] l(7) strncmp_first_diff [of c x y "length d1" "u @ r1" "w @ r2"] by (simp add: r_def)
    have "(of_char x :: nat) \<noteq> of_char y"
      using d(1) by simp
    then consider "(of_char x :: nat) < of_char y" | "(of_char y :: nat) < of_char x"
      by linarith
    then show ?thesis
    proof cases
      case 1
      from decimal_first_diff [OF l(2,3,1,4) 1, of c] 1 show ?thesis
        by (simp add: r d of_char_int_less)
    next
      case 2
      from decimal_first_diff [OF l(3,2) l(1) [symmetric] l(5) 2, of c] 2 show ?thesis
        by (simp add: r d of_char_int_less)
    qed
  qed
qed




lemma leading_zeros_zeros: "leading_zeros (zeros k @ d) = k + leading_zeros d"
  by (induction k) (simp_all add: leading_zeros_def zeros_def)



lemma decimal_longer:
  assumes "significant d" and "list_all isdigit e" and "length e < length d"
  shows "decimal e < decimal d"
proof -
  from assms(3) have "d \<noteq> []" by auto
  have "decimal e < 10 ^ length e"
    using assms(2) by (rule decimal_less)
  also have "\<dots> \<le> (10::nat) ^ (length d - 1)"
    using assms(3) by (intro power_increasing) auto
  also have "\<dots> \<le> decimal d"
    using assms(1) \<open>d \<noteq> []\<close> by (rule decimal_ge)
  finally show ?thesis .
qed

lemma decimal_inj:
  assumes "significant d1" and "significant d2" and "decimal d1 = decimal d2"
  shows "d1 = d2"
proof (rule ccontr)
  assume ne: "d1 \<noteq> d2"
  have a: "list_all isdigit d1" "list_all isdigit d2"
    using assms(1,2) by (simp_all add: significant_def)
  consider "length d2 < length d1" | "length d1 < length d2" | "length d1 = length d2"
    by linarith
  then show False
  proof cases
    case 1
    from decimal_longer [OF assms(1) a(2) 1] assms(3) show False by simp
  next
    case 2
    from decimal_longer [OF assms(2) a(1) 2] assms(3) show False by simp
  next
    case 3
    from same_length_different [OF ne 3] obtain c x u y w where
      d: "x \<noteq> y" "d1 = c @ [x] @ u" "d2 = c @ [y] @ w"
      by blast
    with 3 a have l: "length u = length w" "list_all isdigit u" "list_all isdigit w"
      "isdigit x" "isdigit y"
      by (auto simp: list_all_iff)
    have "(of_char x :: nat) \<noteq> of_char y"
      using d(1) by simp
    then consider "(of_char x :: nat) < of_char y" | "(of_char y :: nat) < of_char x"
      by linarith
    then show False
    proof cases
      case 1
      from decimal_first_diff [OF l(2,3,1,4) 1, of c] assms(3) show False
        by (simp add: d)
    next
      case 2
      from decimal_first_diff [OF l(3,2) l(1) [symmetric] l(5) 2, of c] assms(3) show False
        by (simp add: d)
    qed
  qed
qed

lemma leading_zeros_significant: "significant d \<Longrightarrow> leading_zeros d = 0"
  by (cases d) (simp_all add: significant_def leading_zeros_def)

lemma number_at_split:
  assumes "isdigit (peek s)"
  obtains k d where "s = zeros k @ d @ dropWhile isdigit s" and "number_at s = zeros k @ d"
    and "significant d" and "0 < k + length d" and "\<not> isdigit (peek (dropWhile isdigit s))"
proof -
  have n: "list_all isdigit (number_at s)"
    unfolding number_at_def list_all_iff by (auto dest: set_takeWhileD)
  from n obtain k d where kd: "number_at s = zeros k @ d" "significant d"
    by (rule number_split)
  have s: "s = number_at s @ dropWhile isdigit s"
    by (simp add: number_at_def)
  have "number_at s \<noteq> []"
    using assms by (cases s) (simp_all add: number_at_def)
  then have l: "0 < k + length d"
    using kd(1) by (auto simp: zeros_def)
  have p: "\<not> isdigit (peek (dropWhile isdigit s))"
  proof (cases "dropWhile isdigit s")
    case Nil
    show ?thesis
      unfolding Nil by (simp add: isdigit_def)
  next
    case (Cons c r)
    with hd_dropWhile [of isdigit s] show ?thesis
      by simp
  qed
  from s kd(1) have "s = zeros k @ d @ dropWhile isdigit s"
    by simp
  then show ?thesis
    using kd l p by (rule that)
qed

lemma walk_induct [consumes 1, case_names arrived letter number]:
  assumes w: "walk s1 s2 t u1 u2 t'"
    and arrived: "\<And>s1 s2 t. P s1 s2 t s1 s2 t"
    and letter: "\<And>a b r1 r2 t u1 u2 t'. a \<noteq> CHR 0x00 \<Longrightarrow> b \<noteq> CHR 0x00 \<Longrightarrow> \<not> isdigit a \<Longrightarrow>
        \<not> isdigit b \<Longrightarrow> tolower a = tolower b \<Longrightarrow> walk r1 r2 t u1 u2 t' \<Longrightarrow>
        P r1 r2 t u1 u2 t' \<Longrightarrow> P (a # r1) (b # r2) t u1 u2 t'"
    and number: "\<And>d k1 k2 r1 r2 t u1 u2 t'. list_all isdigit d \<Longrightarrow> 0 < k1 + length d \<Longrightarrow>
        0 < k2 + length d \<Longrightarrow> \<not> isdigit (peek r1) \<Longrightarrow> \<not> isdigit (peek r2) \<Longrightarrow>
        walk r1 r2 (tie t k1 k2) u1 u2 t' \<Longrightarrow> P r1 r2 (tie t k1 k2) u1 u2 t' \<Longrightarrow>
        P (zeros k1 @ d @ r1) (zeros k2 @ d @ r2) t u1 u2 t'"
  shows "P s1 s2 t u1 u2 t'"
  using w
proof (induction s1 s2 t u1 u2 t' rule: walk.induct)
  case (1 s1 s2 t u1 u2 t')
  show ?case
  proof (cases "s1 = u1 \<and> s2 = u2 \<and> t = t'")
    case True
    then show ?thesis
      using arrived [of s1 s2 t] by simp
  next
    case False
    with "1.prems" obtain r1 r2 t1 where
      s: "segment s1 s2 t = Some (r1, r2, t1)" and v: "walk r1 r2 t1 u1 u2 t'"
      by (auto simp: walk.simps [of s1 s2 t] split: option.splits)
    from "1.IH" [OF False s refl refl v] have p: "P r1 r2 t1 u1 u2 t'" .
    show ?thesis
    proof (cases "isdigit (peek s1) \<and> isdigit (peek s2)")
      case True
      from True obtain k1 d1 where 1: "s1 = zeros k1 @ d1 @ dropWhile isdigit s1"
        "number_at s1 = zeros k1 @ d1" "significant d1" "0 < k1 + length d1"
        "\<not> isdigit (peek (dropWhile isdigit s1))"
        by (blast elim: number_at_split)
      from True obtain k2 d2 where 2: "s2 = zeros k2 @ d2 @ dropWhile isdigit s2"
        "number_at s2 = zeros k2 @ d2" "significant d2" "0 < k2 + length d2"
        "\<not> isdigit (peek (dropWhile isdigit s2))"
        by (blast elim: number_at_split)
      from s True have e: "decimal (number_at s1) = decimal (number_at s2)"
        and r: "r1 = dropWhile isdigit s1" "r2 = dropWhile isdigit s2"
        and t1: "t1 = tie t (leading_zeros (number_at s1)) (leading_zeros (number_at s2))"
        by (auto simp: segment_def split: if_splits)
      from e have "decimal d1 = decimal d2"
        by (simp add: 1(2) 2(2) decimal_zeros)
      with 1(3) 2(3) have d: "d1 = d2"
        by (rule decimal_inj)
      have t: "t1 = tie t k1 k2"
        by (simp add: t1 1(2) 2(2) leading_zeros_zeros leading_zeros_significant 1(3) 2(3))
      have a: "list_all isdigit d1"
        using 1(3) by (simp add: significant_def)
      have "P (zeros k1 @ d1 @ r1) (zeros k2 @ d1 @ r2) t u1 u2 t'"
        using a 1(4) 2(4) 1(5) 2(5) v p unfolding r [symmetric] t d [symmetric]
        by (intro number) (simp_all add: d)
      then show ?thesis
        using 1(1) 2(1) by (simp add: r d)
    next
      case False
      with s obtain a b where c: "s1 = a # r1" "s2 = b # r2" "t1 = t"
        "a \<noteq> CHR 0x00" "b \<noteq> CHR 0x00" "\<not> isdigit a" "\<not> isdigit b" "tolower a = tolower b"
        by (cases s1; cases s2) (auto simp: segment_def split: if_splits)
      from letter [OF c(4-8)] v p show ?thesis
        by (simp add: c(1-3))
    qed
  qed
qed

lemma walk_natural_loop:
  "walk s1 s2 t u1 u2 t' \<Longrightarrow> natural_loop s1 s2 t = natural_loop u1 u2 t'"
proof (induction rule: walk_induct)
  case (arrived s1 s2 t)
  show ?case ..
next
  case (letter a b r1 r2 t u1 u2 t')
  then show ?case
    by (simp add: natural_loop_same_letter)
next
  case (number d k1 k2 r1 r2 t u1 u2 t')
  then show ?case
    by (simp add: natural_loop_equal_numbers)
qed


lemma natural_walk_differs:
  assumes "walk s1 s2 0 u1 u2 v" and "differs_at u1 u2 r"
  shows "BLI_strcasecmp_natural s1 s2 = r"
  using walk_natural_loop [OF assms(1)] natural_loop_differs_at [OF assms(2), of v]
  by (simp add: BLI_strcasecmp_natural_def)

lemma tolower_of_char:
  "(of_char (tolower c) :: nat) =
     (if 65 \<le> (of_char c :: nat) \<and> (of_char c :: nat) \<le> 90 then of_char c + 32 else of_char c)"
  by (simp add: tolower_def of_char_of)

lemma tolower_eq_dot: "tolower c = CHR ''.'' \<longleftrightarrow> c = CHR ''.''"
proof -
  have "tolower c = CHR ''.'' \<longleftrightarrow> (of_char (tolower c) :: nat) = of_char (CHR ''.'')"
    by (simp only: of_char_eq_iff)
  also have "\<dots> \<longleftrightarrow> (of_char c :: nat) = of_char (CHR ''.'')"
    by (simp add: tolower_of_char)
  also have "\<dots> \<longleftrightarrow> c = CHR ''.''"
    by (simp only: of_char_eq_iff)
  finally show ?thesis .
qed

lemma differs_at_numbers:
  assumes "significant d1" and "significant d2" and "0 < k1 + length d1" and "0 < k2 + length d2"
    and "\<not> isdigit (peek r1)" and "\<not> isdigit (peek r2)"
  defines "r \<equiv> (if length d2 < length d1 then 1
      else if length d1 < length d2 then - 1
      else strncmp (d1 @ r1) (d2 @ r2) (length d1))"
  assumes "r \<noteq> 0"
  shows "differs_at (zeros k1 @ d1 @ r1) (zeros k2 @ d2 @ r2) r"
proof -
  have n: "list_all isdigit (zeros k @ d)" if "significant d" for k d
    using that list_all_zeros [of k] by (simp add: significant_def)
  have ne: "zeros k1 @ d1 \<noteq> []" "zeros k2 @ d2 \<noteq> []"
    using assms(3,4) by (auto simp: zeros_def)
  have h: "isdigit (peek ((zeros k1 @ d1) @ r1))" "isdigit (peek ((zeros k2 @ d2) @ r2))"
    by (rule number_head(1) [OF n [OF assms(1)] ne(1) assms(5)])
      (rule number_head(1) [OF n [OF assms(2)] ne(2) assms(6)])
  have f: "fst (left_number_strcmp (zeros k1 @ d1 @ r1) (zeros k2 @ d2 @ r2) 0) = r"
    unfolding r_def by (rule left_number_strcmp_numbers [OF assms(1,2,5,6)])
  show ?thesis
    using h f \<open>r \<noteq> 0\<close> by (simp add: differs_at_def)
qed

lemma natural_count_then_digits:
  assumes "walk s1 s2 0 (zeros k1 @ d1 @ r1) (zeros k2 @ d2 @ r2) v"
    and "significant d1" and "significant d2" and "0 < k1 + length d1" and "0 < k2 + length d2"
    and "\<not> isdigit (peek r1)" and "\<not> isdigit (peek r2)"
  shows "length d1 < length d2 \<Longrightarrow> BLI_strcasecmp_natural s1 s2 = - 1"
    and "length d2 < length d1 \<Longrightarrow> BLI_strcasecmp_natural s1 s2 = 1"
    and "length d1 = length d2 \<Longrightarrow> d1 = c @ x # u \<Longrightarrow> d2 = c @ y # w \<Longrightarrow> x \<noteq> y \<Longrightarrow>
      BLI_strcasecmp_natural s1 s2 = of_char x - of_char y"
proof -
  note d = differs_at_numbers [OF assms(2-7)]
  show "BLI_strcasecmp_natural s1 s2 = - 1" if "length d1 < length d2"
    using that d by (intro natural_walk_differs [OF assms(1)]) simp
  show "BLI_strcasecmp_natural s1 s2 = 1" if "length d2 < length d1"
    using that d by (intro natural_walk_differs [OF assms(1)]) simp
  show "BLI_strcasecmp_natural s1 s2 = of_char x - of_char y"
    if "length d1 = length d2" "d1 = c @ x # u" "d2 = c @ y # w" "x \<noteq> y"
  proof -
    have "list_all isdigit c"
      using assms(2) that(2) by (simp add: significant_def)
    then have "CHR 0x00 \<notin> set c"
      by (rule isdigit_not_zero_byte)
    then have "strncmp (c @ x # (u @ r1)) (c @ y # (w @ r2)) (length (c @ x # u)) = of_char x - of_char y"
      using that(4) by (rule strncmp_first_diff) simp
    then have "strncmp (d1 @ r1) (d2 @ r2) (length d1) = of_char x - of_char y"
      by (simp only: that(2,3) append_assoc append_Cons)
    moreover have "(of_char x :: int) - of_char y \<noteq> 0"
      using that(4) by simp
    ultimately show ?thesis
      using that(1) d by (intro natural_walk_differs [OF assms(1)]) simp
  qed
qed

lemma natural_as_numbers:
  assumes "walk s1 s2 0 (n1 @ r1) (n2 @ r2) v"
    and "list_all isdigit n1" and "n1 \<noteq> []" and "list_all isdigit n2" and "n2 \<noteq> []"
    and "\<not> isdigit (peek r1)" and "\<not> isdigit (peek r2)"
  shows "decimal n1 < decimal n2 \<Longrightarrow> BLI_strcasecmp_natural s1 s2 < 0"
    and "decimal n2 < decimal n1 \<Longrightarrow> 0 < BLI_strcasecmp_natural s1 s2"
proof -
  from assms(2) obtain k1 d1 where n1: "n1 = zeros k1 @ d1" "significant d1"
    by (rule number_split)
  from assms(4) obtain k2 d2 where n2: "n2 = zeros k2 @ d2" "significant d2"
    by (rule number_split)
  define r where "r = (if length d2 < length d1 then 1
      else if length d1 < length d2 then - 1
      else strncmp (d1 @ r1) (d2 @ r2) (length d1))"
  have l: "0 < k1 + length d1" "0 < k2 + length d2"
    using assms(3,5) n1(1) n2(1) by (auto simp: zeros_def)
  have o: "(decimal n1 < decimal n2 \<longrightarrow> r < 0) \<and> (decimal n2 < decimal n1 \<longrightarrow> 0 < r)"
    using numbers_order [OF n1(2) n2(2), of r1 r2] by (simp add: r_def n1(1) n2(1) decimal_zeros)
  have w: "walk s1 s2 0 (zeros k1 @ d1 @ r1) (zeros k2 @ d2 @ r2) v"
    using assms(1) by (simp add: n1(1) n2(1))
  have e: "BLI_strcasecmp_natural s1 s2 = r" if "r \<noteq> 0"
    using differs_at_numbers [OF n1(2) n2(2) l assms(6,7)] that
    by (intro natural_walk_differs [OF w]) (simp add: r_def)
  show "BLI_strcasecmp_natural s1 s2 < 0" if "decimal n1 < decimal n2"
    using that o e by auto
  show "0 < BLI_strcasecmp_natural s1 s2" if "decimal n2 < decimal n1"
    using that o e by auto
qed

lemma natural_dot_first:
  assumes "walk s1 s2 0 u1 u2 v" and "c \<noteq> CHR 0x00" and "c \<noteq> CHR ''.''"
  shows "u1 = CHR ''.'' # r1 \<Longrightarrow> u2 = c # r2 \<Longrightarrow> BLI_strcasecmp_natural s1 s2 = - 1"
    and "u1 = c # r1 \<Longrightarrow> u2 = CHR ''.'' # r2 \<Longrightarrow> BLI_strcasecmp_natural s1 s2 = 1"
proof -
  have t: "tolower c \<noteq> CHR ''.''"
    using assms(3) by (simp add: tolower_eq_dot)
  show "BLI_strcasecmp_natural s1 s2 = - 1" if "u1 = CHR ''.'' # r1" "u2 = c # r2"
    using that assms(2) t
    by (intro natural_walk_differs [OF assms(1)]) (auto simp: differs_at_def char_step_def)
  show "BLI_strcasecmp_natural s1 s2 = 1" if "u1 = c # r1" "u2 = CHR ''.'' # r2"
    using that assms(2) t
    by (intro natural_walk_differs [OF assms(1)]) (auto simp: differs_at_def char_step_def)
qed

lemma natural_bytes:
  assumes "walk s1 s2 0 (a # r1) (b # r2) v" and "a \<noteq> CHR 0x00" and "b \<noteq> CHR 0x00"
    and "\<not> (isdigit a \<and> isdigit b)" and "tolower a \<noteq> tolower b"
    and "a \<noteq> CHR ''.''" and "b \<noteq> CHR ''.''"
  shows "BLI_strcasecmp_natural s1 s2 =
     (if char_value (tolower a) < char_value (tolower b) then - 1 else 1)"
proof -
  have "char_value (tolower a) \<noteq> char_value (tolower b)"
    using assms(5) by (simp add: char_value_inj)
  then have "differs_at (a # r1) (b # r2) (if char_value (tolower a) < char_value (tolower b) then - 1 else 1)"
    using assms(2-7) by (auto simp: differs_at_def char_step_def tolower_eq_dot)
  then show ?thesis
    by (rule natural_walk_differs [OF assms(1)])
qed









text \<open>
  C6. \<^verbatim>\<open>BLI_strcasecmp_natural("img2", "img10") < 0\<close> and
  \<^verbatim>\<open>BLI_strcasecmp_natural("a.b", "a 1.b") < 0\<close>. Where the walk meets two maximal runs of
  digits with different values, the string with the smaller number is the smaller one:
  behind the leading zeros the run with fewer digits is the smaller number, and of two
  runs with as many digits the first digit that differs decides. Outside of numbers
  bytes that are equal after \<^verbatim>\<open>tolower\<close> are skipped; of two that differ a \<^verbatim>\<open>'.'\<close> is the
  smaller one, and otherwise the byte that is smaller after \<^verbatim>\<open>tolower\<close>.
\<close>

theorem natural_numbers_and_dot:
  "BLI_strcasecmp_natural ''img2'' ''img10'' < 0
   \<and> BLI_strcasecmp_natural ''a.b'' ''a 1.b'' < 0
   \<and> BLI_strcasecmp_natural ''img002'' ''img10'' < 0
   \<and> BLI_strcasecmp_natural ''img0100'' ''img99'' > 0
   \<and> BLI_strcasecmp_natural ''img12'' ''img13'' < 0
   \<and> BLI_strcasecmp_natural ''IMG13'' ''img12'' > 0
   \<and> BLI_strcasecmp_natural ''Foo.bar'' ''foo 1.bar'' < 0
   \<and> BLI_strcasecmp_natural ''img12b'' ''img13a'' < 0
   \<and> BLI_strcasecmp_natural ''x9z'' ''x10a'' < 0
   \<and> (walk s1 s2 0 (n1 @ r1) (n2 @ r2) v
        \<and> list_all isdigit n1 \<and> n1 \<noteq> [] \<and> list_all isdigit n2 \<and> n2 \<noteq> []
        \<and> \<not> isdigit (peek r1) \<and> \<not> isdigit (peek r2) \<longrightarrow>
          (decimal n1 < decimal n2 \<longrightarrow> BLI_strcasecmp_natural s1 s2 < 0)
          \<and> (decimal n2 < decimal n1 \<longrightarrow> 0 < BLI_strcasecmp_natural s1 s2))
   \<and> (walk s1 s2 0 (zeros k1 @ d1 @ r1) (zeros k2 @ d2 @ r2) v
        \<and> significant d1 \<and> significant d2 \<and> 0 < k1 + length d1 \<and> 0 < k2 + length d2
        \<and> \<not> isdigit (peek r1) \<and> \<not> isdigit (peek r2) \<longrightarrow>
          (length d1 < length d2 \<longrightarrow> BLI_strcasecmp_natural s1 s2 = - 1)
          \<and> (length d2 < length d1 \<longrightarrow> BLI_strcasecmp_natural s1 s2 = 1)
          \<and> (length d1 = length d2 \<and> d1 = c @ x # u \<and> d2 = c @ y # w \<longrightarrow>
               ((of_char x :: nat) < of_char y \<longrightarrow> BLI_strcasecmp_natural s1 s2 < 0)
               \<and> ((of_char y :: nat) < of_char x \<longrightarrow> 0 < BLI_strcasecmp_natural s1 s2)))
   \<and> (walk s1 s2 0 (CHR ''.'' # r1) (b # r2) v \<and> b \<noteq> CHR 0x00 \<and> b \<noteq> CHR ''.'' \<longrightarrow>
          BLI_strcasecmp_natural s1 s2 = - 1)
   \<and> (walk s1 s2 0 (a # r1) (CHR ''.'' # r2) v \<and> a \<noteq> CHR 0x00 \<and> a \<noteq> CHR ''.'' \<longrightarrow>
          BLI_strcasecmp_natural s1 s2 = 1)
   \<and> (walk s1 s2 0 (a # r1) (b # r2) v \<and> a \<noteq> CHR 0x00 \<and> b \<noteq> CHR 0x00
        \<and> \<not> (isdigit a \<and> isdigit b) \<and> tolower a \<noteq> tolower b
        \<and> a \<noteq> CHR ''.'' \<and> b \<noteq> CHR ''.'' \<longrightarrow>
          BLI_strcasecmp_natural s1 s2 =
            (if char_value (tolower a) < char_value (tolower b) then - 1 else 1))"
proof -
  have 1: "BLI_strcasecmp_natural ''img2'' ''img10'' < 0" "BLI_strcasecmp_natural ''a.b'' ''a 1.b'' < 0"
    "BLI_strcasecmp_natural ''img002'' ''img10'' < 0" "BLI_strcasecmp_natural ''img0100'' ''img99'' > 0"
    "BLI_strcasecmp_natural ''img12'' ''img13'' < 0" "BLI_strcasecmp_natural ''IMG13'' ''img12'' > 0"
    "BLI_strcasecmp_natural ''Foo.bar'' ''foo 1.bar'' < 0"
    "BLI_strcasecmp_natural ''img12b'' ''img13a'' < 0" "BLI_strcasecmp_natural ''x9z'' ''x10a'' < 0"
    by code_simp+
  have 2: "((of_char x :: nat) < of_char y \<longrightarrow> BLI_strcasecmp_natural s1 s2 < 0)
      \<and> ((of_char y :: nat) < of_char x \<longrightarrow> 0 < BLI_strcasecmp_natural s1 s2)"
    if "walk s1 s2 0 (zeros k1 @ d1 @ r1) (zeros k2 @ d2 @ r2) v" "significant d1" "significant d2"
      "0 < k1 + length d1" "0 < k2 + length d2" "\<not> isdigit (peek r1)" "\<not> isdigit (peek r2)"
      "length d1 = length d2" "d1 = c @ x # u" "d2 = c @ y # w"
  proof (cases "x = y")
    case True
    then show ?thesis by simp
  next
    case False
    from natural_count_then_digits(3) [OF that False]
    show ?thesis
      by (simp add: of_char_int_less)
  qed
  have 3: "(decimal n1 < decimal n2 \<longrightarrow> BLI_strcasecmp_natural s1 s2 < 0)
      \<and> (decimal n2 < decimal n1 \<longrightarrow> 0 < BLI_strcasecmp_natural s1 s2)"
    if "walk s1 s2 0 (n1 @ r1) (n2 @ r2) v" "list_all isdigit n1" "n1 \<noteq> []"
      "list_all isdigit n2" "n2 \<noteq> []" "\<not> isdigit (peek r1)" "\<not> isdigit (peek r2)"
    using natural_as_numbers [OF that] by blast
  have 4: "(length d1 < length d2 \<longrightarrow> BLI_strcasecmp_natural s1 s2 = - 1)
      \<and> (length d2 < length d1 \<longrightarrow> BLI_strcasecmp_natural s1 s2 = 1)"
    if "walk s1 s2 0 (zeros k1 @ d1 @ r1) (zeros k2 @ d2 @ r2) v" "significant d1" "significant d2"
      "0 < k1 + length d1" "0 < k2 + length d2" "\<not> isdigit (peek r1)" "\<not> isdigit (peek r2)"
    using natural_count_then_digits(1,2) [OF that] by blast
  have 5: "BLI_strcasecmp_natural s1 s2 = - 1"
    if "walk s1 s2 0 (CHR ''.'' # r1) (b # r2) v" "b \<noteq> CHR 0x00" "b \<noteq> CHR ''.''"
    using natural_dot_first(1) [OF that] by simp
  have 6: "BLI_strcasecmp_natural s1 s2 = 1"
    if "walk s1 s2 0 (a # r1) (CHR ''.'' # r2) v" "a \<noteq> CHR 0x00" "a \<noteq> CHR ''.''"
    using natural_dot_first(2) [OF that] by simp
  have 7: "BLI_strcasecmp_natural s1 s2 =
      (if char_value (tolower a) < char_value (tolower b) then - 1 else 1)"
    if "walk s1 s2 0 (a # r1) (b # r2) v" "a \<noteq> CHR 0x00" "b \<noteq> CHR 0x00"
      "\<not> (isdigit a \<and> isdigit b)" "tolower a \<noteq> tolower b" "a \<noteq> CHR ''.''" "b \<noteq> CHR ''.''"
    using that by (rule natural_bytes)
  have c3: "walk s1 s2 0 (n1 @ r1) (n2 @ r2) v
        \<and> list_all isdigit n1 \<and> n1 \<noteq> [] \<and> list_all isdigit n2 \<and> n2 \<noteq> []
        \<and> \<not> isdigit (peek r1) \<and> \<not> isdigit (peek r2) \<longrightarrow>
          (decimal n1 < decimal n2 \<longrightarrow> BLI_strcasecmp_natural s1 s2 < 0)
          \<and> (decimal n2 < decimal n1 \<longrightarrow> 0 < BLI_strcasecmp_natural s1 s2)"
    using 3 by blast
  have c4: "walk s1 s2 0 (zeros k1 @ d1 @ r1) (zeros k2 @ d2 @ r2) v
        \<and> significant d1 \<and> significant d2 \<and> 0 < k1 + length d1 \<and> 0 < k2 + length d2
        \<and> \<not> isdigit (peek r1) \<and> \<not> isdigit (peek r2) \<longrightarrow>
          (length d1 < length d2 \<longrightarrow> BLI_strcasecmp_natural s1 s2 = - 1)
          \<and> (length d2 < length d1 \<longrightarrow> BLI_strcasecmp_natural s1 s2 = 1)
          \<and> (length d1 = length d2 \<and> d1 = c @ x # u \<and> d2 = c @ y # w \<longrightarrow>
               ((of_char x :: nat) < of_char y \<longrightarrow> BLI_strcasecmp_natural s1 s2 < 0)
               \<and> ((of_char y :: nat) < of_char x \<longrightarrow> 0 < BLI_strcasecmp_natural s1 s2))"
    using 2 4 by blast
  have c5: "walk s1 s2 0 (CHR ''.'' # r1) (b # r2) v \<and> b \<noteq> CHR 0x00 \<and> b \<noteq> CHR ''.'' \<longrightarrow>
          BLI_strcasecmp_natural s1 s2 = - 1"
    using 5 by blast
  have c6: "walk s1 s2 0 (a # r1) (CHR ''.'' # r2) v \<and> a \<noteq> CHR 0x00 \<and> a \<noteq> CHR ''.'' \<longrightarrow>
          BLI_strcasecmp_natural s1 s2 = 1"
    using 6 by blast
  have c7: "walk s1 s2 0 (a # r1) (b # r2) v \<and> a \<noteq> CHR 0x00 \<and> b \<noteq> CHR 0x00
        \<and> \<not> (isdigit a \<and> isdigit b) \<and> tolower a \<noteq> tolower b
        \<and> a \<noteq> CHR ''.'' \<and> b \<noteq> CHR ''.'' \<longrightarrow>
          BLI_strcasecmp_natural s1 s2 =
            (if char_value (tolower a) < char_value (tolower b) then - 1 else 1)"
    using 7 by blast
  show ?thesis
    by (intro conjI 1 c3 c4 c5 c6 c7)
qed


theorem natural_numbers_and_dot_witness:
  "walk ''img002'' ''img10'' 0 (''002'' @ []) (''10'' @ []) 0
   \<and> list_all isdigit ''002'' \<and> ''002'' \<noteq> [] \<and> list_all isdigit ''10'' \<and> ''10'' \<noteq> []
   \<and> \<not> isdigit (peek []) \<and> decimal ''002'' < decimal ''10''
   \<and> BLI_strcasecmp_natural ''img002'' ''img10'' < 0
   \<and> walk ''img0100'' ''img99'' 0 (zeros 1 @ ''100'' @ []) (zeros 0 @ ''99'' @ []) 0
   \<and> significant ''100'' \<and> significant ''99'' \<and> 0 < 1 + length ''100'' \<and> 0 < 0 + length ''99''
   \<and> length ''99'' < length ''100''
   \<and> BLI_strcasecmp_natural ''img0100'' ''img99'' = 1
   \<and> walk ''img012'' ''img13'' 0 (zeros 1 @ ''12'' @ []) (zeros 0 @ ''13'' @ []) 0
   \<and> significant ''12'' \<and> significant ''13'' \<and> length ''12'' = length ''13''
   \<and> ''12'' = ''1'' @ CHR ''2'' # [] \<and> ''13'' = ''1'' @ CHR ''3'' # []
   \<and> (of_char CHR ''2'' :: nat) < of_char CHR ''3''
   \<and> BLI_strcasecmp_natural ''img012'' ''img13'' < 0
   \<and> walk ''a.b'' ''a 1.b'' 0 (CHR ''.'' # ''b'') (CHR '' '' # ''1.b'') 0
   \<and> CHR '' '' \<noteq> CHR 0x00 \<and> CHR '' '' \<noteq> CHR ''.''
   \<and> BLI_strcasecmp_natural ''a.b'' ''a 1.b'' = - 1
   \<and> walk ''a 1.b'' ''a.b'' 0 (CHR '' '' # ''1.b'') (CHR ''.'' # ''b'') 0
   \<and> BLI_strcasecmp_natural ''a 1.b'' ''a.b'' = 1
   \<and> walk ''IMG7Y'' ''img7x'' 0 (CHR ''Y'' # []) (CHR ''x'' # []) 0
   \<and> \<not> (isdigit CHR ''Y'' \<and> isdigit CHR ''x'') \<and> tolower CHR ''Y'' \<noteq> tolower CHR ''x''
   \<and> CHR ''Y'' \<noteq> CHR ''.'' \<and> CHR ''x'' \<noteq> CHR ''.''
   \<and> \<not> char_value (tolower CHR ''Y'') < char_value (tolower CHR ''x'')
   \<and> BLI_strcasecmp_natural ''IMG7Y'' ''img7x'' = 1"
proof -
  have w1: "walk ''img002'' ''img10'' 0 (''002'' @ []) (''10'' @ []) 0"
    by code_simp
  have w2: "walk ''img0100'' ''img99'' 0 (zeros 1 @ ''100'' @ []) (zeros 0 @ ''99'' @ []) 0"
    by code_simp
  have w3: "walk ''img012'' ''img13'' 0 (zeros 1 @ ''12'' @ []) (zeros 0 @ ''13'' @ []) 0"
    by code_simp
  have w4: "walk ''a.b'' ''a 1.b'' 0 (CHR ''.'' # ''b'') (CHR '' '' # ''1.b'') 0"
    by code_simp
  have w5: "walk ''a 1.b'' ''a.b'' 0 (CHR '' '' # ''1.b'') (CHR ''.'' # ''b'') 0"
    by code_simp
  have w6: "walk ''IMG7Y'' ''img7x'' 0 (CHR ''Y'' # []) (CHR ''x'' # []) 0"
    by code_simp
  have d: "list_all isdigit ''002''" "''002'' \<noteq> []" "list_all isdigit ''10''" "''10'' \<noteq> []"
    "\<not> isdigit (peek [])" "decimal ''002'' < decimal ''10''"
    "significant ''100''" "significant ''99''" "0 < 1 + length ''100''" "0 < 0 + length ''99''"
    "length ''99'' < length ''100''"
    "significant ''12''" "significant ''13''" "length ''12'' = length ''13''"
    "''12'' = ''1'' @ CHR ''2'' # []" "''13'' = ''1'' @ CHR ''3'' # []"
    "(of_char CHR ''2'' :: nat) < of_char CHR ''3''"
    "CHR '' '' \<noteq> CHR 0x00" "CHR '' '' \<noteq> CHR ''.''"
    "\<not> (isdigit CHR ''Y'' \<and> isdigit CHR ''x'')" "tolower CHR ''Y'' \<noteq> tolower CHR ''x''"
    "CHR ''Y'' \<noteq> CHR ''.''" "CHR ''x'' \<noteq> CHR ''.''" "CHR ''Y'' \<noteq> CHR 0x00" "CHR ''x'' \<noteq> CHR 0x00"
    "\<not> char_value (tolower CHR ''Y'') < char_value (tolower CHR ''x'')"
    by code_simp+
  note T = natural_numbers_and_dot
  from w1 d(1-6) T [where ?s1.0 = "''img002''" and ?s2.0 = "''img10''" and ?n1.0 = "''002''"
      and ?n2.0 = "''10''" and ?r1.0 = "[]" and ?r2.0 = "[]" and v = 0]
  have r1: "BLI_strcasecmp_natural ''img002'' ''img10'' < 0"
    by blast
  from w2 d(5,7-11) T [where ?s1.0 = "''img0100''" and ?s2.0 = "''img99''" and ?k1.0 = 1
      and ?d1.0 = "''100''" and ?k2.0 = 0 and ?d2.0 = "''99''" and ?r1.0 = "[]" and ?r2.0 = "[]" and v = 0]
  have r2: "BLI_strcasecmp_natural ''img0100'' ''img99'' = 1"
    by blast
  have p: "0 < 1 + length ''12''" "0 < 0 + length ''13''"
    by simp_all
  from w3 d(5,12-17) p T [where ?s1.0 = "''img012''" and ?s2.0 = "''img13''" and ?k1.0 = 1
      and ?d1.0 = "''12''" and ?k2.0 = 0 and ?d2.0 = "''13''" and ?r1.0 = "[]" and ?r2.0 = "[]" and v = 0
      and c = "''1''" and x = "CHR ''2''" and y = "CHR ''3''" and u = "[]" and w = "[]"]
  have r3: "BLI_strcasecmp_natural ''img012'' ''img13'' < 0"
    by blast
  from w4 d(18,19) T [where ?s1.0 = "''a.b''" and ?s2.0 = "''a 1.b''" and ?r1.0 = "''b''"
      and b = "CHR '' ''" and ?r2.0 = "''1.b''" and v = 0]
  have r4: "BLI_strcasecmp_natural ''a.b'' ''a 1.b'' = - 1"
    by blast
  from w5 d(18,19) T [where ?s1.0 = "''a 1.b''" and ?s2.0 = "''a.b''" and ?r2.0 = "''b''"
      and a = "CHR '' ''" and ?r1.0 = "''1.b''" and v = 0]
  have r5: "BLI_strcasecmp_natural ''a 1.b'' ''a.b'' = 1"
    by blast
  from w6 d(20-26) T [where ?s1.0 = "''IMG7Y''" and ?s2.0 = "''img7x''" and ?r1.0 = "[]"
      and a = "CHR ''Y''" and b = "CHR ''x''" and ?r2.0 = "[]" and v = 0]
  have r6: "BLI_strcasecmp_natural ''IMG7Y'' ''img7x'' = 1"
    by presburger
  from w1 w2 w3 w4 w5 w6 d r1 r2 r3 r4 r5 r6 show ?thesis
    by blast
qed

end
